theory Spec2Isabelle
  imports Main "HOL-Library.AList" "HOL-Library.Word"
begin

section \<open>JavaScript strings and the built-ins the program calls\<close>

text \<open>
  A JavaScript string is a sequence of UTF-16 code units, each a 16-bit number. The
  methods of strings and the regular expressions of the program (none has the \<^verbatim>\<open>u\<close> flag)
  work on code units. The names of the rules of the grammar, which never meet the text
  that is parsed, are kept as \<^typ>\<open>string\<close>.
\<close>

type_synonym codeunit = "16 word"

type_synonym ustring = "codeunit list"

text \<open>The code units of ASCII text, for the literals of the program and the examples.\<close>

abbreviation asciiUnit :: "char \<Rightarrow> codeunit" where
  "asciiUnit c \<equiv> of_char c"

definition ascii :: "string \<Rightarrow> ustring" where
  "ascii s = map asciiUnit s"

abbreviation NL :: codeunit where "NL \<equiv> 0x0A"
abbreviation BSL :: codeunit where "BSL \<equiv> 0x5C"
abbreviation DQ :: codeunit where "DQ \<equiv> 0x22"
abbreviation SQ :: codeunit where "SQ \<equiv> 0x27"
abbreviation EQ :: codeunit where "EQ \<equiv> 0x3D"
abbreviation HASH :: codeunit where "HASH \<equiv> 0x23"

text \<open>\<^verbatim>\<open>s.charAt(i)\<close>: the one-character string at \<open>i\<close>, or the empty string out of range.\<close>

definition charAt :: "ustring \<Rightarrow> nat \<Rightarrow> ustring" where
  "charAt s i = take 1 (drop i s)"

text \<open>\<^verbatim>\<open>s.substr(i, n)\<close>: at most \<open>n\<close> characters from \<open>i\<close>.\<close>

definition substr :: "ustring \<Rightarrow> nat \<Rightarrow> nat \<Rightarrow> ustring" where
  "substr s i n = take n (drop i s)"

text \<open>\<^verbatim>\<open>s.split(c)\<close> for a one-character separator; the result is never empty.\<close>

fun split :: "codeunit \<Rightarrow> ustring \<Rightarrow> ustring list" where
  "split c [] = [[]]"
| "split c (x # xs) =
     (if x = c then [] # split c xs
      else (case split c xs of [] \<Rightarrow> [[x]] | l # ls \<Rightarrow> (x # l) # ls))"

text \<open>
  The white space of \<^verbatim>\<open>/\s/\<close> and of \<^verbatim>\<open>trim()\<close> (the same set in ECMAScript, WhiteSpace
  and LineTerminator): tab, line feed, vertical tab, form feed, carriage return, space,
  no-break space, the space separators U+1680, U+2000 to U+200A, U+202F, U+205F and
  U+3000, the line and paragraph separators U+2028 and U+2029, and U+FEFF.
\<close>

definition isWhiteSpace :: "codeunit \<Rightarrow> bool" where
  "isWhiteSpace c \<longleftrightarrow>
     c \<in> set [0x09, 0x0A, 0x0B, 0x0C, 0x0D, 0x20, 0xA0, 0x1680,
                0x2000, 0x2001, 0x2002, 0x2003, 0x2004, 0x2005, 0x2006, 0x2007, 0x2008,
                0x2009, 0x200A, 0x2028, 0x2029, 0x202F, 0x205F, 0x3000, 0xFEFF]"

definition trim :: "ustring \<Rightarrow> ustring" where
  "trim s = rev (dropWhile isWhiteSpace (rev (dropWhile isWhiteSpace s)))"

text \<open>
  \<^verbatim>\<open>JSON.stringify\<close> of a string (ECMAScript QuoteJSONString). The string is read as code
  points: a leading surrogate that is followed by a trailing surrogate makes one code
  point with it, every other code unit is a code point of its own. The double quote and
  the backslash are escaped with a backslash, the control characters below 0x20 as
  \<^verbatim>\<open>\b \t \n \f \r\<close> or \<^verbatim>\<open>\uXXXX\<close> (four lower-case hexadecimal digits), a surrogate
  that has no partner as \<^verbatim>\<open>\uXXXX\<close> as well, and everything else is copied.
\<close>

definition isLeadingSurrogate :: "codeunit \<Rightarrow> bool" where
  "isLeadingSurrogate c \<longleftrightarrow> 0xD800 \<le> c \<and> c \<le> 0xDBFF"

definition isTrailingSurrogate :: "codeunit \<Rightarrow> bool" where
  "isTrailingSurrogate c \<longleftrightarrow> 0xDC00 \<le> c \<and> c \<le> 0xDFFF"

definition hexDigit :: "nat \<Rightarrow> codeunit" where
  "hexDigit n = ascii ''0123456789abcdef'' ! (n mod 16)"

definition unicodeEscape :: "codeunit \<Rightarrow> ustring" where
  "unicodeEscape c =
     BSL # ascii ''u'' @
     [hexDigit (unat c div 4096), hexDigit (unat c div 256), hexDigit (unat c div 16),
      hexDigit (unat c)]"

text \<open>What is written for a code point that is one code unit.\<close>

definition quoteChar :: "codeunit \<Rightarrow> ustring" where
  "quoteChar c =
     (if c = 0x08 then BSL # ascii ''b''
      else if c = 0x09 then BSL # ascii ''t''
      else if c = NL then BSL # ascii ''n''
      else if c = 0x0C then BSL # ascii ''f''
      else if c = 0x0D then BSL # ascii ''r''
      else if c = DQ then [BSL, DQ]
      else if c = BSL then [BSL, BSL]
      else if c < 0x20 \<or> isLeadingSurrogate c \<or> isTrailingSurrogate c then unicodeEscape c
      else [c])"

fun quoteJSONString :: "ustring \<Rightarrow> ustring" where
  "quoteJSONString [] = []"
| "quoteJSONString [c] = quoteChar c"
| "quoteJSONString (c # c' # cs) =
     (if isLeadingSurrogate c \<and> isTrailingSurrogate c' then c # c' # quoteJSONString cs
      else quoteChar c @ quoteJSONString (c' # cs))"

definition JSON_stringify :: "ustring \<Rightarrow> ustring" where
  "JSON_stringify s = [DQ] @ quoteJSONString s @ [DQ]"

text \<open>Decimal rendering of a number inside a template string.\<close>

fun showNat :: "nat \<Rightarrow> ustring" where
  "showNat n =
     (if n < 10 then [ascii ''0123456789'' ! n]
      else showNat (n div 10) @ [ascii ''0123456789'' ! (n mod 10)])"

declare showNat.simps [simp del]

section \<open>The grammar table\<close>

text \<open>
  A token part is a literal string, a regular expression over one character, or a
  reference \<^verbatim>\<open>{ type, optional, flatten }\<close> to another entry of the table; absent flags
  are falsy.
\<close>

datatype tokenPart =
    Lit ustring
  | Rx "codeunit \<Rightarrow> bool"
  | Ref string bool bool

text \<open>
  The value of a captured token is an array whose elements are strings and nested
  captures \<^verbatim>\<open>{ value, token }\<close>; \<^verbatim>\<open>token\<close> is the name \<^verbatim>\<open>getTokenName\<close> finds, or
  \<^verbatim>\<open>null\<close>.
\<close>

datatype element = Str ustring | Sub token
  and token = Token (tvalue: "element list") (tname: "string option")

text \<open>
  An entry of the table is an alternation \<^verbatim>\<open>{ $or: [...] }\<close>, an array of parts, or an
  object \<^verbatim>\<open>{ replacer, token: [...] }\<close>.
\<close>

datatype tokenDef =
    Or "string list"
  | Seq "tokenPart list"
  | Replaced "element list \<Rightarrow> element list" "tokenPart list"

text \<open>
  Every regular expression of the table is one character class; \<^verbatim>\<open>re.test(char)\<close> is
  applied to the result of \<^verbatim>\<open>charAt\<close>, which is empty at the end of the source, and a
  class needs a character to match. Without the \<^verbatim>\<open>u\<close> flag a class is a set of code
  units.
\<close>

definition test :: "(codeunit \<Rightarrow> bool) \<Rightarrow> ustring \<Rightarrow> bool" where
  "test cls s = list_ex cls s"

text \<open>The classes \<^verbatim>\<open>[a-zA-Z_]\<close> and \<^verbatim>\<open>[a-zA-Z0-9_]\<close>: ranges of code units.\<close>

definition isAlphaU :: "codeunit \<Rightarrow> bool" where
  "isAlphaU c \<longleftrightarrow>
     asciiUnit CHR ''a'' \<le> c \<and> c \<le> asciiUnit CHR ''z''
     \<or> asciiUnit CHR ''A'' \<le> c \<and> c \<le> asciiUnit CHR ''Z''
     \<or> c = asciiUnit CHR ''_''"

definition isAlphaNumU :: "codeunit \<Rightarrow> bool" where
  "isAlphaNumU c \<longleftrightarrow>
     asciiUnit CHR ''a'' \<le> c \<and> c \<le> asciiUnit CHR ''z''
     \<or> asciiUnit CHR ''A'' \<le> c \<and> c \<le> asciiUnit CHR ''Z''
     \<or> asciiUnit CHR ''0'' \<le> c \<and> c \<le> asciiUnit CHR ''9''
     \<or> c = asciiUnit CHR ''_''"

definition isEscapeLetter :: "codeunit \<Rightarrow> bool" where
  "isEscapeLetter c \<longleftrightarrow> c \<in> set (ascii ''ntbfr'' @ [DQ, BSL])"

text \<open>
  The replacer of \<^verbatim>\<open>EscapedChars\<close>: a \<^verbatim>\<open>switch\<close> on the first element of the coalesced
  capture that overwrites it in the seven listed cases and leaves it alone otherwise.
\<close>

fun replacer :: "element list \<Rightarrow> element list" where
  "replacer (Str s # rest) =
     (if s = [BSL, BSL] then Str [BSL] # rest
      else if s = BSL # ascii ''n'' then Str [NL] # rest
      else if s = BSL # ascii ''t'' then Str [0x09] # rest
      else if s = BSL # ascii ''b'' then Str [0x08] # rest
      else if s = BSL # ascii ''f'' then Str [0x0C] # rest
      else if s = BSL # ascii ''r'' then Str [0x0D] # rest
      else if s = [BSL, DQ] then Str [DQ] # rest
      else Str s # rest)"
| "replacer val = val"

definition TOKENS :: "string \<Rightarrow> tokenDef option" where
  "TOKENS = map_of
    [(''Whitespace'', Seq [Rx isWhiteSpace, Ref ''Whitespace'' True True]),
     (''Comment'', Seq [Lit [HASH], Ref ''CommentChars'' True False]),
     (''CommentChars'',
        Seq [Ref ''CommentChar'' False True, Ref ''CommentChars'' True True]),
     (''CommentChar'', Seq [Rx (\<lambda>c. c \<noteq> NL)]),
     (''keyedEntry'', Seq [Ref ''Key'' False False, Lit [EQ], Ref ''String'' True False]),
     (''Key'', Seq [Ref ''AlphaUChar'' False True, Ref ''AlphaNumUChars'' True True]),
     (''AlphaNumUChars'',
        Seq [Ref ''AlphaNumUChar'' False True, Ref ''AlphaNumUChars'' True True]),
     (''AlphaUChar'', Seq [Rx isAlphaU]),
     (''AlphaNumUChar'', Seq [Rx isAlphaNumU]),
     (''String'',
        Or [''UnquotedString'', ''EmptyString'', ''QuotedString'', ''SingleQuotedString'']),
     (''UnquotedString'',
        Seq [Ref ''SafeChar'' False True, Ref ''UnquotedStringChars'' True True]),
     (''SafeChar'', Seq [Rx (\<lambda>c. c \<noteq> NL \<and> c \<noteq> DQ \<and> c \<noteq> SQ)]),
     (''UnquotedStringChars'',
        Seq [Rx (\<lambda>c. c \<noteq> BSL \<and> c \<noteq> NL), Ref ''UnquotedStringChars'' True True]),
     (''EmptyString'', Seq [Lit [DQ, DQ]]),
     (''QuotedString'', Seq [Lit [DQ], Ref ''QuotedStringChars'' True False, Lit [DQ]]),
     (''QuotedStringChars'',
        Seq [Ref ''QuotedStringChar'' False True, Ref ''QuotedStringChars'' True True]),
     (''QuotedStringChar'', Or [''UnescapedQuotedStringChar'', ''EscapedChars'']),
     (''SingleQuotedString'',
        Seq [Lit [SQ], Ref ''SingleQuotedStringChars'' True False, Lit [SQ]]),
     (''SingleQuotedStringChars'',
        Seq [Ref ''SingleQuotedStringChar'' False True,
             Ref ''SingleQuotedStringChars'' True True]),
     (''SingleQuotedStringChar'', Or [''UnescapedSingleQuotedStringChar'']),
     (''UnescapedQuotedStringChar'', Seq [Rx (\<lambda>c. c \<noteq> BSL \<and> c \<noteq> DQ)]),
     (''UnescapedSingleQuotedStringChar'', Seq [Rx (\<lambda>c. c \<noteq> SQ)]),
     (''EscapedChars'', Replaced replacer [Lit [BSL], Rx isEscapeLetter])]"

text \<open>The top-level tokens, in the order the lexer tries them.\<close>

definition MAIN_TOKENS :: "string list" where
  "MAIN_TOKENS = [''Whitespace'', ''Comment'', ''keyedEntry'']"

section \<open>The rule extractor\<close>

record state =
  source :: ustring
  index :: nat

text \<open>
  What the program can throw. \<open>RangeError\<close> is the engine's answer to a call stack that
  is too deep; \<open>TypeError\<close> is a property read on \<^verbatim>\<open>undefined\<close> or a call of something
  that is no function; \<open>UnknownToken\<close> and \<open>Unexpected\<close> are the two \<^verbatim>\<open>Error\<close>s the code
  constructs itself, the second with the character, the offset and the line preview of
  its message. \<open>NotAString\<close> marks the places where JavaScript would go on with a key or
  value that is no string, which the type of documents here excludes.
\<close>

datatype error =
    RangeError
  | TypeError
  | UnknownToken string
  | Unexpected ustring nat ustring
  | NotAString

text \<open>
  The loop that coalesces consecutive strings: a string is appended to the last
  element when that is a string, and pushed otherwise.
\<close>

fun pushSanitized :: "element list \<Rightarrow> element \<Rightarrow> element list" where
  "pushSanitized acc (Str s) =
     (if acc = [] then [Str s]
      else (case last acc of
              Str t \<Rightarrow> butlast acc @ [Str (t @ s)]
            | Sub _ \<Rightarrow> acc @ [Str s]))"
| "pushSanitized acc (Sub t) = acc @ [Sub t]"

definition sanitize :: "element list \<Rightarrow> element list" where
  "sanitize extractedValue = foldl pushSanitized [] extractedValue"

text \<open>
  \<^verbatim>\<open>extract(token, state)\<close>, here \<open>extract'\<close>. A token object is identified with its key in \<open>TOKENS\<close>,
  which is what \<^verbatim>\<open>getTokenName\<close> recovers from it; for an object with a replacer the
  variable \<^verbatim>\<open>token\<close> has been rebound to the inner array by then, which is no value of
  the table, so the name is \<^verbatim>\<open>null\<close>. The first argument bounds the depth of the
  recursion (the call stack). The result is the returned capture (\<open>None\<close> for \<^verbatim>\<open>null\<close>)
  together with the state object as the call leaves it.

  \<open>extractOr\<close> is the loop over \<^verbatim>\<open>token.$or\<close>, \<open>extractParts\<close> the loop over the parts of
  an array with its local variables \<^verbatim>\<open>currentIndex\<close> and \<^verbatim>\<open>extractedValue\<close>; it yields
  \<open>None\<close> where the code returns \<^verbatim>\<open>null\<close> from inside the loop, and both variables where
  the loop ends or is left by \<^verbatim>\<open>break\<close>.
\<close>

fun extract' :: "nat \<Rightarrow> string \<Rightarrow> state \<Rightarrow> error + (token option \<times> state)"
  and extractOr :: "nat \<Rightarrow> string list \<Rightarrow> state \<Rightarrow> error + (token option \<times> state)"
  and extractParts ::
    "nat \<Rightarrow> tokenPart list \<Rightarrow> ustring \<Rightarrow> nat \<Rightarrow> element list
      \<Rightarrow> error + (nat \<times> element list) option"
where
  "extract' 0 name st = Inl RangeError"
| "extract' (Suc d) name st =
     (case TOKENS name of
        None \<Rightarrow> Inl TypeError
      | Some (Or alts) \<Rightarrow> extractOr d alts st
      | Some (Seq parts) \<Rightarrow>
          (case extractParts d parts (source st) (index st) [] of
             Inl e \<Rightarrow> Inl e
           | Inr None \<Rightarrow> Inr (None, st)
           | Inr (Some (currentIndex, extractedValue)) \<Rightarrow>
               Inr (Some (Token (sanitize extractedValue) (Some name)),
                    st\<lparr>index := currentIndex\<rparr>))
      | Some (Replaced rep parts) \<Rightarrow>
          (case extractParts d parts (source st) (index st) [] of
             Inl e \<Rightarrow> Inl e
           | Inr None \<Rightarrow> Inr (None, st)
           | Inr (Some (currentIndex, extractedValue)) \<Rightarrow>
               Inr (Some (Token (rep (sanitize extractedValue)) None),
                    st\<lparr>index := currentIndex\<rparr>)))"
| "extractOr d [] st = Inr (None, st)"
| "extractOr d (orToken # rest) st =
     (case extract' d orToken st of
        Inl e \<Rightarrow> Inl e
      | Inr (None, st') \<Rightarrow> extractOr d rest st'
      | Inr (Some v, st') \<Rightarrow> Inr (Some v, st'))"
| "extractParts d [] src currentIndex extractedValue =
     Inr (Some (currentIndex, extractedValue))"
| "extractParts d (Lit tokenPart # rest) src currentIndex extractedValue =
     (let currentToken = substr src currentIndex (length tokenPart) in
      if tokenPart \<noteq> currentToken then Inr None
      else extractParts d rest src (currentIndex + length currentToken)
             (extractedValue @ [Str currentToken]))"
| "extractParts d (Rx tokenPart # rest) src currentIndex extractedValue =
     (let char = charAt src currentIndex in
      if \<not> test tokenPart char then Inr None
      else extractParts d rest src (currentIndex + 1) (extractedValue @ [Str char]))"
| "extractParts d (Ref type optional flatten # rest) src currentIndex extractedValue =
     (case TOKENS type of
        None \<Rightarrow> Inl (UnknownToken type)
      | Some subToken \<Rightarrow>
          (case extract' d type \<lparr>source = src, index = currentIndex\<rparr> of
             Inl e \<Rightarrow> Inl e
           | Inr (None, subState) \<Rightarrow>
               if \<not> optional then Inr None
               else Inr (Some (currentIndex, extractedValue))
           | Inr (Some v, subState) \<Rightarrow>
               extractParts d rest src (index subState)
                 (if flatten then extractedValue @ tvalue v
                  else extractedValue @ [Sub v])))"

section \<open>The lexer\<close>

text \<open>
  One pass of the \<^verbatim>\<open>for\<close> loop over \<open>MAIN_TOKENS\<close>: every rule is tried on the shared
  state object, one after the other, and each capture is yielded. The generator is
  modelled by what it yields before it ends or throws: the tokens, and the error if
  there is one.
\<close>

fun lexTokens :: "nat \<Rightarrow> string list \<Rightarrow> state \<Rightarrow> token list \<times> error option \<times> state" where
  "lexTokens d [] st = ([], None, st)"
| "lexTokens d (t # ts) st =
     (case extract' d t st of
        Inl e \<Rightarrow> ([], Some e, st)
      | Inr (None, st') \<Rightarrow> lexTokens d ts st'
      | Inr (Some v, st') \<Rightarrow>
          (case lexTokens d ts st' of (vs, e, st'') \<Rightarrow> (v # vs, e, st'')))"

lemma extract'_index_le:
  "extract' d name st = Inr (r, st') \<Longrightarrow> index st \<le> index st'"
  "extractOr d alts st = Inr (r, st') \<Longrightarrow> index st \<le> index st'"
  "extractParts d parts src i ev = Inr (Some (j, ev')) \<Longrightarrow> i \<le> j"
proof (induction d name st and d alts st and d parts src i ev
    arbitrary: r st' and r st' and j ev' rule: extract'_extractOr_extractParts.induct)
  case (1 name st)
  then show ?case by simp
next
  case (2 d name st)
  then show ?case
    by (auto split: option.splits tokenDef.splits sum.splits)
next
  case (3 d st)
  then show ?case by simp
next
  case (4 d orToken rest st)
  then show ?case
    by (fastforce split: option.splits sum.splits prod.splits)
next
  case (5 d src currentIndex extractedValue)
  then show ?case by simp
next
  case (6 d tokenPart rest src currentIndex extractedValue)
  then show ?case
    by (fastforce simp: Let_def split: if_splits)
next
  case (7 d tokenPart rest src currentIndex extractedValue)
  then show ?case
    by (fastforce simp: Let_def split: if_splits)
next
  case (8 d type optional flatten rest src currentIndex extractedValue)
  then show ?case
    by (fastforce split: option.splits sum.splits prod.splits if_splits)
qed

lemma lexTokens_index_le:
  "lexTokens d ts st = (vs, e, st') \<Longrightarrow> index st \<le> index st'"
proof (induction ts arbitrary: st vs)
  case Nil
  then show ?case by simp
next
  case (Cons t ts)
  then show ?case
    by (fastforce split: option.splits sum.splits prod.splits dest: extract'_index_le(1))
qed

text \<open>
  The \<^verbatim>\<open>while\<close> loop of \<^verbatim>\<open>lex\<close>. It goes on only when the pass has moved the index,
  and no rule moves it backwards, so the distance to the end of the source shrinks.
\<close>

function lexLoop :: "nat \<Rightarrow> ustring \<Rightarrow> state \<Rightarrow> token list \<times> error option" where
  "lexLoop d src st =
     (if index st < length src then
        (let lastIndex = index st in
         case lexTokens d MAIN_TOKENS st of
           (vs, Some e, st') \<Rightarrow> (vs, Some e)
         | (vs, None, st') \<Rightarrow>
             if lastIndex = index st'
             then (vs, Some (Unexpected (charAt src lastIndex) lastIndex
                      (case split NL (substr src (index st') 25) of
                         [] \<Rightarrow> [] | line # _ \<Rightarrow> line)))
             else (case lexLoop d src st' of (ws, e) \<Rightarrow> (vs @ ws, e)))
      else ([], None))"
  by pat_completeness auto
termination
  apply (relation "measure (\<lambda>(d, src, st). length src - index st)")
   apply simp
  subgoal for d src st lastIndex vs y e st'
    using lexTokens_index_le [of d MAIN_TOKENS st vs e st'] by auto
  done

declare lexLoop.simps [simp del]

definition lex :: "nat \<Rightarrow> ustring \<Rightarrow> token list \<times> error option" where
  "lex d src = lexLoop d src \<lparr>source = src, index = 0\<rparr>"

section \<open>The assembler and the string decoder\<close>

text \<open>
  What indexing an array of captured elements gives: \<^verbatim>\<open>undefined\<close> out of range, a
  string, or a nested capture object.
\<close>

datatype jsval = Undefined | JString ustring | JObject token

definition at :: "element list \<Rightarrow> nat \<Rightarrow> jsval" where
  "at arr i =
     (if i < length arr then (case arr ! i of Str s \<Rightarrow> JString s | Sub t \<Rightarrow> JObject t)
      else Undefined)"

text \<open>
  \<^verbatim>\<open>x.value[i]\<close>: a \<^verbatim>\<open>TypeError\<close> when \<open>x\<close> is \<^verbatim>\<open>undefined\<close>, and also when \<open>x\<close> is a
  string, whose \<^verbatim>\<open>value\<close> is \<^verbatim>\<open>undefined\<close>.
\<close>

fun valueAt :: "jsval \<Rightarrow> nat \<Rightarrow> error + jsval" where
  "valueAt (JObject t) i = Inr (at (tvalue t) i)"
| "valueAt (JString s) i = Inl TypeError"
| "valueAt Undefined i = Inl TypeError"

text \<open>\<^verbatim>\<open>x.trim()\<close>: only a string has the method.\<close>

fun trimOf :: "jsval \<Rightarrow> error + ustring" where
  "trimOf (JString s) = Inr (trim s)"
| "trimOf (JObject t) = Inl TypeError"
| "trimOf Undefined = Inl TypeError"

text \<open>A property key that is no string is converted to one.\<close>

fun toPropertyKey :: "jsval \<Rightarrow> ustring" where
  "toPropertyKey (JString s) = s"
| "toPropertyKey Undefined = ascii ''undefined''"
| "toPropertyKey (JObject t) = ascii ''[object Object]''"

fun parseString :: "jsval \<Rightarrow> error + jsval" where
  "parseString (JObject val) =
     (if tname val = Some ''UnquotedString'' then Inr (at (tvalue val) 0)
      else if length (tvalue val) \<noteq> 3 then Inr (JString [])
      else valueAt (at (tvalue val) 1) 0)"
| "parseString (JString s) = Inl TypeError"
| "parseString Undefined = Inl TypeError"

text \<open>
  A document maps keys to plain strings, or to \<^verbatim>\<open>{ description, value }\<close> objects whose
  description may be \<^verbatim>\<open>null\<close>. It is kept as the list of its own properties in the order
  \<^verbatim>\<open>Object.entries\<close> lists them: a new key goes to the end, an assignment to an existing
  key keeps its place. An assignment to the key \<^verbatim>\<open>__proto__\<close> reaches the setter that
  \<^verbatim>\<open>Object.prototype\<close> provides and creates no property.
\<close>

datatype entry = Plain ustring | Described "ustring option" ustring

type_synonym document = "(ustring \<times> entry) list"

definition assign :: "document \<Rightarrow> ustring \<Rightarrow> entry \<Rightarrow> document" where
  "assign m key v = (if key = ascii ''__proto__'' then m else AList.update key v m)"

fun asString :: "jsval \<Rightarrow> error + ustring" where
  "asString (JString s) = Inr s"
| "asString (JObject t) = Inl NotAString"
| "asString Undefined = Inl NotAString"

text \<open>
  The body of the \<^verbatim>\<open>for\<close> loop of \<^verbatim>\<open>parse\<close> on one token, on the pair of \<^verbatim>\<open>map\<close> and
  \<^verbatim>\<open>lastDescription\<close>.
\<close>

definition assemble ::
  "bool \<Rightarrow> document \<times> ustring \<Rightarrow> token \<Rightarrow> error + document \<times> ustring" where
  "assemble extractDescriptions acc entry =
     (case acc of (m, lastDescription) \<Rightarrow>
      if tname entry = Some ''Whitespace'' then Inr (m, lastDescription)
      else if tname entry = Some ''Comment'' then
        (case valueAt (at (tvalue entry) 1) 0 of
           Inl e \<Rightarrow> Inl e
         | Inr x \<Rightarrow>
             (case trimOf x of
                Inl e \<Rightarrow> Inl e
              | Inr line \<Rightarrow>
                  Inr (m, (if lastDescription \<noteq> [] then lastDescription @ [NL]
                           else lastDescription) @ line)))
      else if tname entry = Some ''keyedEntry'' then
        (case valueAt (at (tvalue entry) 0) 0 of
           Inl e \<Rightarrow> Inl e
         | Inr key \<Rightarrow>
             (case (if at (tvalue entry) 2 = Undefined then Inr (JString [])
                    else parseString (at (tvalue entry) 2)) of
                Inl e \<Rightarrow> Inl e
              | Inr v \<Rightarrow>
                  (case asString v of
                     Inl e \<Rightarrow> Inl e
                   | Inr val \<Rightarrow>
                       Inr (assign m (toPropertyKey key)
                              (if extractDescriptions
                               then Described
                                      (if lastDescription \<noteq> [] then Some lastDescription
                                       else None) val
                               else Plain val),
                            []))))
      else Inr (m, lastDescription))"

fun assembleAll ::
  "bool \<Rightarrow> document \<times> ustring \<Rightarrow> token list \<Rightarrow> error + document \<times> ustring" where
  "assembleAll extractDescriptions acc [] = Inr acc"
| "assembleAll extractDescriptions acc (entry # entries) =
     (case assemble extractDescriptions acc entry of
        Inl e \<Rightarrow> Inl e
      | Inr acc' \<Rightarrow> assembleAll extractDescriptions acc' entries)"

text \<open>
  \<^verbatim>\<open>parse(source, { extractDescriptions })\<close>: the tokens are consumed as the generator
  yields them, so an error of the loop body on a token comes before an error the lexer
  raises further on.
\<close>

definition parse :: "nat \<Rightarrow> ustring \<Rightarrow> bool \<Rightarrow> error + document" where
  "parse d src extractDescriptions =
     (case lex d src of (entries, thrown) \<Rightarrow>
        (case assembleAll extractDescriptions ([], []) entries of
           Inl e \<Rightarrow> Inl e
         | Inr (m, lastDescription) \<Rightarrow>
             (case thrown of Some e \<Rightarrow> Inl e | None \<Rightarrow> Inr m)))"

text \<open>The message of the error the lexer constructs.\<close>

fun message :: "error \<Rightarrow> ustring" where
  "message (Unexpected c i line) =
     ascii ''Unexpected token '' @ c @ ascii '', at char '' @ showNat i @ ascii '' (line: ''
     @ line @ ascii '')''"
| "message (UnknownToken t) =
     ascii ''Could not extract token '' @ ascii t @ ascii '', unknown token!''"
| "message e = []"

section \<open>The serializer\<close>

definition serializeString :: "ustring \<Rightarrow> ustring" where
  "serializeString val =
     (if NL \<in> set val \<and> SQ \<notin> set val then [SQ] @ val @ [SQ]
      else JSON_stringify val)"

text \<open>\<^verbatim>\<open>Array.prototype.join\<close>.\<close>

fun join :: "ustring \<Rightarrow> ustring list \<Rightarrow> ustring" where
  "join sep [] = []"
| "join sep [x] = x"
| "join sep (x # y # ys) = x @ sep @ join sep (y # ys)"

definition serializeEntry :: "ustring \<times> entry \<Rightarrow> ustring" where
  "serializeEntry p =
     (case p of (key, entry) \<Rightarrow>
      let description = (case entry of Described desc v \<Rightarrow> desc | Plain v \<Rightarrow> None);
          val = (case entry of Described desc v \<Rightarrow> v | Plain v \<Rightarrow> v)
      in (case description of
            Some desc \<Rightarrow>
              if desc \<noteq> [] then concat (map (\<lambda>line. ascii ''# '' @ line @ [NL]) (split NL desc))
              else []
          | None \<Rightarrow> [])
         @ key @ [EQ] @ serializeString val)"

definition serialize :: "document \<Rightarrow> ustring" where
  "serialize obj = join [NL] (map serializeEntry obj)"

section \<open>The vocabulary of the properties\<close>

text \<open>The offset an error of the lexer reports, if the result is one.\<close>

definition thrownOffset :: "error + 'a \<Rightarrow> nat option" where
  "thrownOffset r = (case r of Inl (Unexpected c i line) \<Rightarrow> Some i | _ \<Rightarrow> None)"

text \<open>The keys of the grammar: \<^verbatim>\<open>[A-Za-z_][A-Za-z0-9_]*\<close>.\<close>

definition validKey :: "ustring \<Rightarrow> bool" where
  "validKey k \<longleftrightarrow> (case k of [] \<Rightarrow> False | c # cs \<Rightarrow> isAlphaU c \<and> list_all isAlphaNumU cs)"

text \<open>
  The code units below 0x20 that have a short escape, and all code units from 0x20 on. A
  string without control characters has no code unit below 0x20 at all.
\<close>

definition escapable :: "codeunit \<Rightarrow> bool" where
  "escapable c \<longleftrightarrow> 0x20 \<le> c \<or> c \<in> set [0x08, 0x09, NL, 0x0C, 0x0D]"

definition noControl :: "ustring \<Rightarrow> bool" where
  "noControl s \<longleftrightarrow> list_all (\<lambda>c. 0x20 \<le> c) s"

text \<open>
  A string is well formed when it has no unpaired surrogate: every leading surrogate is
  followed by a trailing one, and every trailing surrogate follows a leading one (the
  test of \<^verbatim>\<open>String.prototype.isWellFormed\<close>).
\<close>

fun wellFormed :: "ustring \<Rightarrow> bool" where
  "wellFormed [] \<longleftrightarrow> True"
| "wellFormed [c] \<longleftrightarrow> \<not> isLeadingSurrogate c \<and> \<not> isTrailingSurrogate c"
| "wellFormed (c # c' # cs) \<longleftrightarrow>
     (if isLeadingSurrogate c then isTrailingSurrogate c' \<and> wellFormed cs
      else \<not> isTrailingSurrogate c \<and> wellFormed (c' # cs))"

text \<open>
  What \<^verbatim>\<open>JSON.stringify\<close> writes for one code unit of a well-formed string, where a
  surrogate is half of a pair and is copied.
\<close>

definition quoteUnit :: "codeunit \<Rightarrow> ustring" where
  "quoteUnit c =
     (if isLeadingSurrogate c \<or> isTrailingSurrogate c then [c] else quoteChar c)"

text \<open>The value of an entry, with or without a description.\<close>

fun entryValue :: "entry \<Rightarrow> ustring" where
  "entryValue (Plain v) = v"
| "entryValue (Described desc v) = v"

text \<open>
  The documents without descriptions that the grammar can give: distinct keys of the
  grammar, none of them \<^verbatim>\<open>__proto__\<close>, bound to plain strings.
\<close>

fun plainEntry :: "ustring \<times> entry \<Rightarrow> bool" where
  "plainEntry (k, Plain v) \<longleftrightarrow> validKey k \<and> k \<noteq> ascii ''__proto__''"
| "plainEntry (k, Described desc v) \<longleftrightarrow> False"

definition plainDocument :: "document \<Rightarrow> bool" where
  "plainDocument m \<longleftrightarrow> distinct (map fst m) \<and> list_all plainEntry m"

text \<open>
  A pair of a key and a value as an entry of a document and as the line the serializer
  writes for it, and the call depth that is enough to read the line back.
\<close>

fun plain :: "ustring \<times> ustring \<Rightarrow> ustring \<times> entry" where
  "plain (k, v) = (k, Plain v)"

fun entryLine :: "ustring \<times> ustring \<Rightarrow> ustring" where
  "entryLine (k, v) = k @ [EQ] @ serializeString v"

fun roundTrips :: "nat \<Rightarrow> ustring \<times> ustring \<Rightarrow> bool" where
  "roundTrips d (k, v) \<longleftrightarrow>
     validKey k \<and> list_all escapable v \<and> wellFormed v
     \<and> length k + 3 \<le> d \<and> length v + 6 \<le> d"

text \<open>
  The capture the string rule returns on a serialized value, and the token of the entry
  rule on a serialized entry.
\<close>

definition stringCapture :: "ustring \<Rightarrow> token" where
  "stringCapture v =
     (if v = [] then Token [Str [DQ, DQ]] (Some ''EmptyString'')
      else if NL \<in> set v \<and> SQ \<notin> set v
      then Token [Str [SQ], Sub (Token [Str v] (Some ''SingleQuotedStringChars'')), Str [SQ]]
             (Some ''SingleQuotedString'')
      else Token [Str [DQ], Sub (Token [Str v] (Some ''QuotedStringChars'')), Str [DQ]]
             (Some ''QuotedString''))"

definition entryCapture :: "ustring \<Rightarrow> ustring \<Rightarrow> token" where
  "entryCapture k v =
     Token [Sub (Token [Str k] (Some ''Key'')), Str [EQ], Sub (stringCapture v)]
       (Some ''keyedEntry'')"

text \<open>
  An entry token starts with the capture of a key; every token that is named as an entry
  does.
\<close>

fun keyShape :: "token \<Rightarrow> bool" where
  "keyShape (Token (Sub (Token [Str k] nm) # rest) nm') \<longleftrightarrow> validKey k"
| "keyShape tok \<longleftrightarrow> False"

definition goodToken :: "token \<Rightarrow> bool" where
  "goodToken tok \<longleftrightarrow> tname tok \<noteq> Some ''keyedEntry'' \<or> keyShape tok"

text \<open>
  The arguments with which the loop body of \<^verbatim>\<open>parse\<close> calls \<^verbatim>\<open>parseString\<close> on a token,
  and the test that sends the decoder into its branch \<^verbatim>\<open>return ''\<close>.
\<close>

definition parseStringArgs :: "token \<Rightarrow> jsval list" where
  "parseStringArgs entry =
     (if tname entry = Some ''keyedEntry'' \<and> at (tvalue entry) 2 \<noteq> Undefined
      then [at (tvalue entry) 2] else [])"

fun takesFallback :: "jsval \<Rightarrow> bool" where
  "takesFallback (JObject val) \<longleftrightarrow>
     tname val \<noteq> Some ''UnquotedString'' \<and> length (tvalue val) \<noteq> 3"
| "takesFallback (JString s) \<longleftrightarrow> False"
| "takesFallback Undefined \<longleftrightarrow> False"


text \<open>
  The rules call one another, and a call that is too deep ends in a \<^verbatim>\<open>RangeError\<close>. The
  rank of a rule bounds the calls it can stack up before a character is consumed: the
  first part of a rule consumes a character or calls a rule of a lower rank, and a later
  part calls a rule of a rank that is no higher.
\<close>

definition rank :: "string \<Rightarrow> nat" where
  "rank name =
     (case map_of
        [(''Whitespace'', 1), (''Comment'', 2), (''CommentChars'', 2), (''CommentChar'', 1),
         (''keyedEntry'', 4), (''Key'', 2), (''AlphaNumUChars'', 2), (''AlphaUChar'', 1),
         (''AlphaNumUChar'', 1), (''String'', 4), (''UnquotedString'', 2), (''SafeChar'', 1),
         (''UnquotedStringChars'', 1), (''EmptyString'', 1), (''QuotedString'', 3),
         (''QuotedStringChars'', 3), (''QuotedStringChar'', 2), (''SingleQuotedString'', 3),
         (''SingleQuotedStringChars'', 3), (''SingleQuotedStringChar'', 2),
         (''UnescapedQuotedStringChar'', 1), (''UnescapedSingleQuotedStringChar'', 1),
         (''EscapedChars'', 1)] name of
        Some r \<Rightarrow> r
      | None \<Rightarrow> 0)"

fun okFirst :: "string \<Rightarrow> tokenPart \<Rightarrow> bool" where
  "okFirst name (Lit s) \<longleftrightarrow> s \<noteq> []"
| "okFirst name (Rx p) \<longleftrightarrow> True"
| "okFirst name (Ref t optional flatten) \<longleftrightarrow>
     \<not> optional \<and> TOKENS t \<noteq> None \<and> rank t < rank name"

fun okLater :: "string \<Rightarrow> tokenPart \<Rightarrow> bool" where
  "okLater name (Lit s) \<longleftrightarrow> s \<noteq> []"
| "okLater name (Rx p) \<longleftrightarrow> True"
| "okLater name (Ref t optional flatten) \<longleftrightarrow> TOKENS t \<noteq> None \<and> rank t \<le> rank name"

fun okParts :: "string \<Rightarrow> tokenPart list \<Rightarrow> bool" where
  "okParts name [] \<longleftrightarrow> False"
| "okParts name (p # ps) \<longleftrightarrow> okFirst name p \<and> list_all (okLater name) ps"

fun okDef :: "string \<Rightarrow> tokenDef \<Rightarrow> bool" where
  "okDef name (Or alts) \<longleftrightarrow> list_all (\<lambda>a. TOKENS a \<noteq> None \<and> rank a < rank name) alts"
| "okDef name (Seq parts) \<longleftrightarrow> okParts name parts"
| "okDef name (Replaced rep parts) \<longleftrightarrow> okParts name parts"

text \<open>A part that cannot succeed without moving the cursor.\<close>

fun consuming :: "tokenPart \<Rightarrow> bool" where
  "consuming (Lit s) \<longleftrightarrow> s \<noteq> []"
| "consuming (Rx p) \<longleftrightarrow> True"
| "consuming (Ref t optional flatten) \<longleftrightarrow> \<not> optional"

text \<open>The depth that is left is enough for the rule a part calls at the index \<open>i\<close>.\<close>

fun deepEnough :: "nat \<Rightarrow> ustring \<Rightarrow> nat \<Rightarrow> tokenPart \<Rightarrow> bool" where
  "deepEnough d src i (Ref t optional flatten) \<longleftrightarrow>
     TOKENS t \<noteq> None \<and> rank t + (length src - i) \<le> d"
| "deepEnough d src i part \<longleftrightarrow> True"

section \<open>Depth of the call stack\<close>

text \<open>
  A run that does not exhaust the depth it is given does not depend on it: with any
  greater depth it makes the same calls and returns the same result.
\<close>

lemma extract'_deeper:
  "extract' d name st \<noteq> Inl RangeError \<Longrightarrow> d \<le> d' \<Longrightarrow> extract' d' name st = extract' d name st"
  "extractOr d alts st \<noteq> Inl RangeError \<Longrightarrow> d \<le> d' \<Longrightarrow> extractOr d' alts st = extractOr d alts st"
  "extractParts d parts src i ev \<noteq> Inl RangeError \<Longrightarrow> d \<le> d'
     \<Longrightarrow> extractParts d' parts src i ev = extractParts d parts src i ev"
proof (induction d name st and d alts st and d parts src i ev
    arbitrary: d' and d' and d' rule: extract'_extractOr_extractParts.induct)
  case (1 name st)
  then show ?case by simp
next
  case (2 d name st)
  from \<open>Suc d \<le> d'\<close> obtain e where d': "d' = Suc e" and le: "d \<le> e"
    by (cases d') auto
  show ?case
  proof (cases "TOKENS name")
    case None
    then show ?thesis by (simp add: d')
  next
    case (Some tok)
    show ?thesis
    proof (cases tok)
      case (Or alts)
      with Some 2(4) have "extractOr d alts st \<noteq> Inl RangeError"
        by simp
      from 2(1) [OF Some Or this le] Some Or show ?thesis by (simp add: d')
    next
      case (Seq parts)
      with Some 2(4) have "extractParts d parts (source st) (index st) [] \<noteq> Inl RangeError"
        by (auto split: sum.splits)
      from 2(2) [OF Some Seq this le] Some Seq show ?thesis by (simp add: d')
    next
      case (Replaced rep parts)
      with Some 2(4) have "extractParts d parts (source st) (index st) [] \<noteq> Inl RangeError"
        by (auto split: sum.splits)
      from 2(3) [OF Some Replaced this le] Some Replaced show ?thesis by (simp add: d')
    qed
  qed
next
  case (3 d st)
  then show ?case by simp
next
  case (4 d orToken rest st)
  from 4(3) have ne: "extract' d orToken st \<noteq> Inl RangeError"
    by (auto split: sum.splits)
  note eq = 4(1) [OF ne \<open>d \<le> d'\<close>]
  show ?case
  proof (cases "extract' d orToken st")
    case (Inl e)
    with eq show ?thesis by simp
  next
    case (Inr p)
    obtain r st' where p: "(r, st') = p" by (cases p) auto
    show ?thesis
    proof (cases r)
      case None
      from 4(3) Inr p None have "extractOr d rest st' \<noteq> Inl RangeError"
        by auto
      from 4(2) [OF Inr p None this \<open>d \<le> d'\<close>] Inr p None eq show ?thesis
        by auto
    next
      case (Some v)
      with Inr p eq show ?thesis by auto
    qed
  qed
next
  case (5 d src currentIndex extractedValue)
  then show ?case by simp
next
  case (6 d tokenPart rest src currentIndex extractedValue)
  show ?case
  proof (cases "tokenPart = substr src currentIndex (length tokenPart)")
    case True
    with 6(2) have "extractParts d rest src (currentIndex + length (substr src currentIndex (length tokenPart)))
        (extractedValue @ [Str (substr src currentIndex (length tokenPart))]) \<noteq> Inl RangeError"
      by (simp add: Let_def)
    from 6(1) [OF refl _ this \<open>d \<le> d'\<close>] True show ?thesis
      by (simp add: Let_def)
  next
    case False
    then show ?thesis by (simp add: Let_def)
  qed
next
  case (7 d tokenPart rest src currentIndex extractedValue)
  show ?case
  proof (cases "test tokenPart (charAt src currentIndex)")
    case True
    with 7(2) have "extractParts d rest src (currentIndex + 1)
        (extractedValue @ [Str (charAt src currentIndex)]) \<noteq> Inl RangeError"
      by (simp add: Let_def)
    from 7(1) [OF refl _ this \<open>d \<le> d'\<close>] True show ?thesis
      by (simp add: Let_def)
  next
    case False
    then show ?thesis by (simp add: Let_def)
  qed
next
  case (8 d type optional flatten rest src currentIndex extractedValue)
  show ?case
  proof (cases "TOKENS type")
    case None
    then show ?thesis by simp
  next
    case (Some subToken)
    from 8(3) Some have ne: "extract' d type \<lparr>source = src, index = currentIndex\<rparr> \<noteq> Inl RangeError"
      by (auto split: sum.splits)
    note eq = 8(1) [OF Some ne \<open>d \<le> d'\<close>]
    show ?thesis
    proof (cases "extract' d type \<lparr>source = src, index = currentIndex\<rparr>")
      case (Inl e)
      with eq Some show ?thesis by simp
    next
      case (Inr p)
      obtain r st' where p: "(r, st') = p" by (cases p) auto
      show ?thesis
      proof (cases r)
        case None
        with Inr p eq Some show ?thesis by auto
      next
        case (Some v)
        from 8(3) Inr p Some \<open>TOKENS type = Some subToken\<close>
        have "extractParts d rest src (index st')
            (if flatten then extractedValue @ tvalue v else extractedValue @ [Sub v]) \<noteq> Inl RangeError"
          by auto
        from 8(2) [OF \<open>TOKENS type = Some subToken\<close> Inr p Some this \<open>d \<le> d'\<close>]
          Inr p eq Some \<open>TOKENS type = Some subToken\<close>
        show ?thesis by auto
      qed
    qed
  qed
qed

text \<open>The steps of the \<^verbatim>\<open>while\<close> loop, one lemma for each way a pass can end.\<close>

lemma lexLoop_end: "\<not> index st < length src \<Longrightarrow> lexLoop d src st = ([], None)"
  by (subst lexLoop.simps) simp

lemma lexLoop_thrown:
  "index st < length src \<Longrightarrow> lexTokens d MAIN_TOKENS st = (vs, Some e, st')
    \<Longrightarrow> lexLoop d src st = (vs, Some e)"
  by (subst lexLoop.simps) simp

lemma lexLoop_stuck:
  "index st < length src \<Longrightarrow> lexTokens d MAIN_TOKENS st = (vs, None, st')
    \<Longrightarrow> index st' = index st
    \<Longrightarrow> lexLoop d src st =
        (vs, Some (Unexpected (charAt src (index st)) (index st)
                    (case split NL (substr src (index st') 25) of [] \<Rightarrow> [] | line # _ \<Rightarrow> line)))"
  by (subst lexLoop.simps) (simp add: Let_def)

lemma lexLoop_next:
  "index st < length src \<Longrightarrow> lexTokens d MAIN_TOKENS st = (vs, None, st')
    \<Longrightarrow> index st' \<noteq> index st
    \<Longrightarrow> lexLoop d src st = (case lexLoop d src st' of (ws, e) \<Rightarrow> (vs @ ws, e))"
  by (subst lexLoop.simps) (simp add: Let_def)

lemma lexTokens_deeper:
  "fst (snd (lexTokens d ts st)) \<noteq> Some RangeError \<Longrightarrow> d \<le> d'
     \<Longrightarrow> lexTokens d' ts st = lexTokens d ts st"
proof (induction ts arbitrary: st)
  case Nil
  then show ?case by simp
next
  case (Cons t ts)
  from Cons.prems(1) have ne: "extract' d t st \<noteq> Inl RangeError"
    by (auto split: sum.splits)
  note eq = extract'_deeper(1) [OF ne \<open>d \<le> d'\<close>]
  show ?case
  proof (cases "extract' d t st")
    case (Inl e)
    with eq show ?thesis by simp
  next
    case (Inr p)
    obtain r st' where p: "p = (r, st')" by (cases p)
    from Cons.prems(1) Inr p have "fst (snd (lexTokens d ts st')) \<noteq> Some RangeError"
      by (auto split: option.splits prod.splits)
    from Cons.IH [OF this \<open>d \<le> d'\<close>] Inr p eq show ?thesis
      by (simp split: option.splits)
  qed
qed

lemma lexLoop_deeper:
  "snd (lexLoop d src st) \<noteq> Some RangeError \<Longrightarrow> d \<le> d'
     \<Longrightarrow> lexLoop d' src st = lexLoop d src st"
proof (induction d src st rule: lexLoop.induct)
  case (1 d src st)
  show ?case
  proof (cases "index st < length src")
    case False
    then show ?thesis by (simp add: lexLoop_end)
  next
    case True
    obtain vs e st' where pass: "lexTokens d MAIN_TOKENS st = (vs, e, st')"
      using prod_cases3 by blast
    show ?thesis
    proof (cases e)
      case (Some err)
      with "1.prems"(1) lexLoop_thrown [OF True pass [unfolded Some]]
      have "err \<noteq> RangeError" by simp
      with pass Some lexTokens_deeper [of d MAIN_TOKENS st d'] \<open>d \<le> d'\<close>
      have "lexTokens d' MAIN_TOKENS st = (vs, Some err, st')" by simp
      from lexLoop_thrown [OF True this] lexLoop_thrown [OF True pass [unfolded Some]]
      show ?thesis by simp
    next
      case None
      with pass lexTokens_deeper [of d MAIN_TOKENS st d'] \<open>d \<le> d'\<close>
      have same: "lexTokens d' MAIN_TOKENS st = (vs, None, st')" by simp
      note pass' = pass [unfolded None]
      show ?thesis
      proof (cases "index st' = index st")
        case True
        from lexLoop_stuck [OF \<open>index st < length src\<close> pass' True]
          lexLoop_stuck [OF \<open>index st < length src\<close> same True]
        show ?thesis by simp
      next
        case False
        note unfold = lexLoop_next [OF True pass' False] lexLoop_next [OF True same False]
        from "1.prems"(1) unfold(1) have "snd (lexLoop d src st') \<noteq> Some RangeError"
          by (simp split: prod.splits)
        from False have "index st \<noteq> index st'" by simp
        from "1.IH" [OF True refl pass [symmetric] refl None this
            \<open>snd (lexLoop d src st') \<noteq> Some RangeError\<close> \<open>d \<le> d'\<close>]
        have "lexLoop d' src st' = lexLoop d src st'" .
        with unfold show ?thesis by simp
      qed
    qed
  qed
qed

lemma lex_deeper:
  "snd (lex d src) \<noteq> Some RangeError \<Longrightarrow> d \<le> d' \<Longrightarrow> lex d' src = lex d src"
  unfolding lex_def by (rule lexLoop_deeper)

lemma parse_deeper:
  "snd (lex d src) \<noteq> Some RangeError \<Longrightarrow> d \<le> d' \<Longrightarrow> parse d' src xd = parse d src xd"
  using lex_deeper [of d src d'] by (simp add: parse_def)

section \<open>Evaluating the grammar\<close>

text \<open>ASCII text is read code unit by code unit.\<close>

lemma ascii_simps [simp]:
  "ascii [] = []"
  "ascii (c # cs) = asciiUnit c # ascii cs"
  by (simp_all add: ascii_def)

text \<open>The entries of the table, and the loop of the lexer on a given state.\<close>

lemma TOKENS_simps:
  "TOKENS ''Whitespace'' = Some (Seq [Rx isWhiteSpace, Ref ''Whitespace'' True True])"
  "TOKENS ''Comment'' = Some (Seq [Lit [HASH], Ref ''CommentChars'' True False])"
  "TOKENS ''CommentChars'' =
     Some (Seq [Ref ''CommentChar'' False True, Ref ''CommentChars'' True True])"
  "TOKENS ''CommentChar'' = Some (Seq [Rx (\<lambda>c. c \<noteq> NL)])"
  "TOKENS ''keyedEntry'' =
     Some (Seq [Ref ''Key'' False False, Lit [EQ], Ref ''String'' True False])"
  "TOKENS ''Key'' = Some (Seq [Ref ''AlphaUChar'' False True, Ref ''AlphaNumUChars'' True True])"
  "TOKENS ''AlphaNumUChars'' =
     Some (Seq [Ref ''AlphaNumUChar'' False True, Ref ''AlphaNumUChars'' True True])"
  "TOKENS ''AlphaUChar'' = Some (Seq [Rx isAlphaU])"
  "TOKENS ''AlphaNumUChar'' = Some (Seq [Rx isAlphaNumU])"
  "TOKENS ''String'' =
     Some (Or [''UnquotedString'', ''EmptyString'', ''QuotedString'', ''SingleQuotedString''])"
  "TOKENS ''UnquotedString'' =
     Some (Seq [Ref ''SafeChar'' False True, Ref ''UnquotedStringChars'' True True])"
  "TOKENS ''SafeChar'' = Some (Seq [Rx (\<lambda>c. c \<noteq> NL \<and> c \<noteq> DQ \<and> c \<noteq> SQ)])"
  "TOKENS ''UnquotedStringChars'' =
     Some (Seq [Rx (\<lambda>c. c \<noteq> BSL \<and> c \<noteq> NL), Ref ''UnquotedStringChars'' True True])"
  "TOKENS ''EmptyString'' = Some (Seq [Lit [DQ, DQ]])"
  "TOKENS ''QuotedString'' =
     Some (Seq [Lit [DQ], Ref ''QuotedStringChars'' True False, Lit [DQ]])"
  "TOKENS ''QuotedStringChars'' =
     Some (Seq [Ref ''QuotedStringChar'' False True, Ref ''QuotedStringChars'' True True])"
  "TOKENS ''QuotedStringChar'' = Some (Or [''UnescapedQuotedStringChar'', ''EscapedChars''])"
  "TOKENS ''SingleQuotedString'' =
     Some (Seq [Lit [SQ], Ref ''SingleQuotedStringChars'' True False, Lit [SQ]])"
  "TOKENS ''SingleQuotedStringChars'' =
     Some (Seq [Ref ''SingleQuotedStringChar'' False True,
                Ref ''SingleQuotedStringChars'' True True])"
  "TOKENS ''SingleQuotedStringChar'' = Some (Or [''UnescapedSingleQuotedStringChar''])"
  "TOKENS ''UnescapedQuotedStringChar'' = Some (Seq [Rx (\<lambda>c. c \<noteq> BSL \<and> c \<noteq> DQ)])"
  "TOKENS ''UnescapedSingleQuotedStringChar'' = Some (Seq [Rx (\<lambda>c. c \<noteq> SQ)])"
  "TOKENS ''EscapedChars'' = Some (Replaced replacer [Lit [BSL], Rx isEscapeLetter])"
  by (simp_all add: TOKENS_def)

lemma lexLoop_unfold:
  "lexLoop d src \<lparr>source = s, index = i\<rparr> =
     (if i < length src then
        (case lexTokens d MAIN_TOKENS \<lparr>source = s, index = i\<rparr> of
           (vs, Some e, st') \<Rightarrow> (vs, Some e)
         | (vs, None, st') \<Rightarrow>
             if i = index st'
             then (vs, Some (Unexpected (charAt src i) i
                      (case split NL (substr src (index st') 25) of
                         [] \<Rightarrow> [] | line # _ \<Rightarrow> line)))
             else (case lexLoop d src st' of (ws, e) \<Rightarrow> (vs @ ws, e)))
      else ([], None))"
  by (subst lexLoop.simps) (simp add: Let_def)

text \<open>A depth that is given as a numeral.\<close>

lemma extract'_numeral:
  "extract' (numeral n) name st =
     (case TOKENS name of
        None \<Rightarrow> Inl TypeError
      | Some (Or alts) \<Rightarrow> extractOr (pred_numeral n) alts st
      | Some (Seq parts) \<Rightarrow>
          (case extractParts (pred_numeral n) parts (source st) (index st) [] of
             Inl e \<Rightarrow> Inl e
           | Inr None \<Rightarrow> Inr (None, st)
           | Inr (Some (currentIndex, extractedValue)) \<Rightarrow>
               Inr (Some (Token (sanitize extractedValue) (Some name)),
                    st\<lparr>index := currentIndex\<rparr>))
      | Some (Replaced rep parts) \<Rightarrow>
          (case extractParts (pred_numeral n) parts (source st) (index st) [] of
             Inl e \<Rightarrow> Inl e
           | Inr None \<Rightarrow> Inr (None, st)
           | Inr (Some (currentIndex, extractedValue)) \<Rightarrow>
               Inr (Some (Token (rep (sanitize extractedValue)) None),
                    st\<lparr>index := currentIndex\<rparr>)))"
  by (simp add: numeral_eq_Suc)

lemmas eval_simps =
  TOKENS_simps lexLoop_unfold lex_def parse_def MAIN_TOKENS_def charAt_def substr_def test_def
  sanitize_def isWhiteSpace_def isAlphaU_def isAlphaNumU_def isEscapeLetter_def
  assemble_def at_def assign_def trim_def extract'_numeral Let_def extract'.simps(2)

lemmas quote_simps =
  quoteChar_def unicodeEscape_def hexDigit_def isLeadingSurrogate_def isTrailingSurrogate_def

section \<open>A failed rule leaves the cursor alone\<close>

lemma extract'_null_frame:
  "extract' d name st = Inr (None, st') \<Longrightarrow> st' = st"
  "extractOr d alts st = Inr (None, st') \<Longrightarrow> st' = st"
  "extractParts d parts src i ev = extractParts d parts src i ev"
proof (induction d name st and d alts st and d parts src i ev
    arbitrary: st' and st' rule: extract'_extractOr_extractParts.induct)
  case (1 name st)
  then show ?case by simp
next
  case (2 d name st)
  then show ?case
    by (auto split: option.splits tokenDef.splits sum.splits)
next
  case (3 d st)
  then show ?case by simp
next
  case (4 d orToken rest st)
  then show ?case
    by (fastforce split: option.splits sum.splits prod.splits)
qed simp_all

text \<open>
  Claim C6. For every rule of the table and every state, when \<^verbatim>\<open>extract\<close> returns
  \<^verbatim>\<open>null\<close> the state object it was given is as it was: \<^verbatim>\<open>state.index\<close> is assigned only
  after all parts of a rule have matched.
\<close>

theorem extract'_failure_keeps_index:
  "extract' d name st = Inr (None, st') \<Longrightarrow> st' = st"
  by (rule extract'_null_frame(1))

theorem extract'_failure_keeps_index_witness:
  "extract' 3 ''Key'' \<lparr>source = ascii ''#B'', index = 0\<rparr> = Inr (None, \<lparr>source = ascii ''#B'', index = 0\<rparr>)"
proof -
  obtain st' where r: "extract' 3 ''Key'' \<lparr>source = ascii ''#B'', index = 0\<rparr> = Inr (None, st')"
    by (simp add: eval_simps)
  from extract'_failure_keeps_index [OF r] r show ?thesis
    by simp
qed

section \<open>The error of the lexer\<close>

lemma lex_A_hash_B: "4 \<le> d \<Longrightarrow> lex d (ascii ''A#B'') = ([], Some (Unexpected (ascii ''A'') 0 (ascii ''A#B'')))"
proof -
  assume d: "4 \<le> d"
  have "lex 4 (ascii ''A#B'') = ([], Some (Unexpected (ascii ''A'') 0 (ascii ''A#B'')))"
    by (simp add: eval_simps)
  with lex_deeper [of 4 "ascii ''A#B''" d] d show ?thesis
    by simp
qed

text \<open>
  Claim C5 says that \<^verbatim>\<open>parse("A#B")\<close> reports offset 1. It does not: the key rule matches
  \<^verbatim>\<open>A\<close>, the literal \<^verbatim>\<open>=\<close> fails on \<^verbatim>\<open>#\<close>, the whole entry rule returns \<^verbatim>\<open>null\<close> and the
  index stays at 0, which is the offset the lexer reports.
\<close>

theorem parse_A_hash_B_counterexample:
  "thrownOffset (parse 4 (ascii ''A#B'') False) \<noteq> Some 1"
  by (simp add: parse_def lex_A_hash_B [simplified] thrownOffset_def)

text \<open>
  Claim C5, amended. \<^verbatim>\<open>parse("A#B")\<close> throws the error of the lexer with offset 0, the
  start of the pass in which no top-level rule matched; its message names the character
  at that offset, \<^verbatim>\<open>A\<close>, and the preview \<^verbatim>\<open>A#B\<close>, which is the rest of the line and at most
  25 characters long.
\<close>

theorem parse_A_hash_B:
  "4 \<le> d \<Longrightarrow>
     parse d (ascii ''A#B'') extractDescriptions = Inl (Unexpected (ascii ''A'') 0 (ascii ''A#B''))
     \<and> message (Unexpected (ascii ''A'') 0 (ascii ''A#B'')) = ascii ''Unexpected token A, at char 0 (line: A#B)''
     \<and> length (ascii ''A#B'') \<le> 25"
  by (simp add: parse_def lex_A_hash_B [simplified] showNat.simps)

theorem parse_A_hash_B_witness:
  "parse 4 (ascii ''A#B'') False = Inl (Unexpected (ascii ''A'') 0 (ascii ''A#B''))
     \<and> message (Unexpected (ascii ''A'') 0 (ascii ''A#B'')) = ascii ''Unexpected token A, at char 0 (line: A#B)''"
  using parse_A_hash_B [of 4 False] by simp

section \<open>What the rules capture\<close>

text \<open>
  From here on the equation of \<open>extract'\<close> is unfolded only where a proof asks for it,
  one rule at a time.
\<close>

lemma charAt_Nil: "drop i src = [] \<Longrightarrow> charAt src i = []"
  by (simp add: charAt_def)

lemma charAt_Cons: "drop i src = c # rest \<Longrightarrow> charAt src i = [c]"
  by (simp add: charAt_def)

lemma drop_Suc_Cons: "drop i src = c # rest \<Longrightarrow> drop (Suc i) src = rest"
  by (metis drop_Suc list.sel(3) tl_drop)

lemma drop_add_append: "drop i src = s @ rest \<Longrightarrow> drop (i + length s) src = rest"
  by (metis add.commute append_eq_conv_conj drop_drop)

lemma test_simps [simp]: "test p [] = False" "test p [c] = p c"
  by (simp_all add: test_def)

lemma sanitize_simps [simp]:
  "sanitize [] = []"
  "sanitize [Str s] = [Str s]"
  "sanitize [Str s, Str t] = [Str (s @ t)]"
  "sanitize [Str s, Sub v] = [Str s, Sub v]"
  "sanitize [Str s, Sub v, Str t] = [Str s, Sub v, Str t]"
  "sanitize [Sub v, Str s] = [Sub v, Str s]"
  "sanitize [Sub v, Str s, Sub w] = [Sub v, Str s, Sub w]"
  by (simp_all add: sanitize_def)

lemma extract'_Seq:
  "TOKENS name = Some (Seq parts) \<Longrightarrow>
   extract' (Suc d) name st =
     (case extractParts d parts (source st) (index st) [] of
        Inl e \<Rightarrow> Inl e
      | Inr None \<Rightarrow> Inr (None, st)
      | Inr (Some (currentIndex, extractedValue)) \<Rightarrow>
          Inr (Some (Token (sanitize extractedValue) (Some name)), st\<lparr>index := currentIndex\<rparr>))"
  by simp

lemma extract'_Replaced:
  "TOKENS name = Some (Replaced rep parts) \<Longrightarrow>
   extract' (Suc d) name st =
     (case extractParts d parts (source st) (index st) [] of
        Inl e \<Rightarrow> Inl e
      | Inr None \<Rightarrow> Inr (None, st)
      | Inr (Some (currentIndex, extractedValue)) \<Rightarrow>
          Inr (Some (Token (rep (sanitize extractedValue)) None), st\<lparr>index := currentIndex\<rparr>))"
  by simp

lemma extract'_Or:
  "TOKENS name = Some (Or alts) \<Longrightarrow> extract' (Suc d) name st = extractOr d alts st"
  by simp

declare extract'.simps(2) [simp del]

lemma extract'_class:
  assumes "TOKENS name = Some (Seq [Rx p])"
  shows "extract' (Suc d) name \<lparr>source = src, index = i\<rparr> =
    (if test p (charAt src i)
     then Inr (Some (Token [Str (charAt src i)] (Some name)), \<lparr>source = src, index = Suc i\<rparr>)
     else Inr (None, \<lparr>source = src, index = i\<rparr>))"
  by (simp add: extract'_Seq [OF assms] Let_def)

lemma extract'_star_ref:
  assumes X: "TOKENS X = Some (Seq [Ref XC False True, Ref X True True])"
    and XC: "TOKENS XC = Some (Seq [Rx p])"
  shows "length (takeWhile p (drop i src)) + 2 \<le> d \<Longrightarrow>
    extract' d X \<lparr>source = src, index = i\<rparr> =
      (if takeWhile p (drop i src) = [] then Inr (None, \<lparr>source = src, index = i\<rparr>)
       else Inr (Some (Token [Str (takeWhile p (drop i src))] (Some X)),
                 \<lparr>source = src, index = i + length (takeWhile p (drop i src))\<rparr>))"
proof (induction d arbitrary: i)
  case 0
  then show ?case by simp
next
  case (Suc d)
  from Suc.prems obtain e where d: "d = Suc e"
    by (cases d) auto
  note cls = extract'_class [OF XC, of e, folded d]
  show ?case
  proof (cases "test p (charAt src i)")
    case False
    then have "takeWhile p (drop i src) = []"
      by (cases "drop i src") (simp_all add: charAt_def)
    with False show ?thesis
      by (simp add: extract'_Seq [OF X] XC cls)
  next
    case True
    then obtain c rest where Cons: "drop i src = c # rest" and c: "p c"
      by (cases "drop i src") (simp_all add: charAt_def)
    from Cons have rest: "drop (Suc i) src = rest"
      by (rule drop_Suc_Cons)
    from Suc.prems Cons c have "length (takeWhile p (drop (Suc i) src)) + 2 \<le> d"
      by (simp add: rest)
    note IH = Suc.IH [OF this, unfolded rest]
    have ch: "charAt src i = [c]"
      using Cons by (rule charAt_Cons)
    have tw: "takeWhile p (drop i src) = c # takeWhile p rest"
      using Cons c by simp
    show ?thesis
      unfolding tw using c IH
      by (simp add: extract'_Seq [OF X] X XC cls ch)
  qed
qed

lemma extract'_star_rx:
  assumes X: "TOKENS X = Some (Seq [Rx p, Ref X True True])"
  shows "length (takeWhile p (drop i src)) + 1 \<le> d \<Longrightarrow>
    extract' d X \<lparr>source = src, index = i\<rparr> =
      (if takeWhile p (drop i src) = [] then Inr (None, \<lparr>source = src, index = i\<rparr>)
       else Inr (Some (Token [Str (takeWhile p (drop i src))] (Some X)),
                 \<lparr>source = src, index = i + length (takeWhile p (drop i src))\<rparr>))"
proof (induction d arbitrary: i)
  case 0
  then show ?case by simp
next
  case (Suc d)
  show ?case
  proof (cases "test p (charAt src i)")
    case False
    then have "takeWhile p (drop i src) = []"
      by (cases "drop i src") (simp_all add: charAt_def)
    with False show ?thesis
      by (simp add: extract'_Seq [OF X] Let_def)
  next
    case True
    then obtain c rest where Cons: "drop i src = c # rest" and c: "p c"
      by (cases "drop i src") (simp_all add: charAt_def)
    from Cons have rest: "drop (Suc i) src = rest"
      by (rule drop_Suc_Cons)
    from Suc.prems Cons c have "length (takeWhile p (drop (Suc i) src)) + 1 \<le> d"
      by (simp add: rest)
    note IH = Suc.IH [OF this, unfolded rest]
    have ch: "charAt src i = [c]"
      using Cons by (rule charAt_Cons)
    have tw: "takeWhile p (drop i src) = c # takeWhile p rest"
      using Cons c by simp
    show ?thesis
      unfolding tw using c IH
      by (simp add: extract'_Seq [OF X] X ch Let_def)
  qed
qed

text \<open>
  The key rule takes the longest run of letters, digits and underscores, provided it
  starts with a letter or an underscore.
\<close>

lemma isAlphaU_isAlphaNumU: "isAlphaU c \<Longrightarrow> isAlphaNumU c"
  by (auto simp: isAlphaU_def isAlphaNumU_def)

lemma extract'_Key:
  assumes "length (takeWhile isAlphaNumU (drop i src)) + 2 \<le> d"
  shows "extract' d ''Key'' \<lparr>source = src, index = i\<rparr> =
    (if test isAlphaU (charAt src i)
     then Inr (Some (Token [Str (takeWhile isAlphaNumU (drop i src))] (Some ''Key'')),
               \<lparr>source = src, index = i + length (takeWhile isAlphaNumU (drop i src))\<rparr>)
     else Inr (None, \<lparr>source = src, index = i\<rparr>))"
proof -
  from assms obtain e where d: "d = Suc (Suc e)"
    by (cases d; cases "d - 1") auto
  note cls = extract'_class [OF TOKENS_simps(8), of e]
  show ?thesis
  proof (cases "test isAlphaU (charAt src i)")
    case False
    then show ?thesis
      by (simp add: d extract'_Seq [OF TOKENS_simps(6)] TOKENS_simps cls)
  next
    case True
    then obtain c rest where Cons: "drop i src = c # rest" and c: "isAlphaU c"
      by (cases "drop i src") (simp_all add: charAt_def)
    from Cons have rest: "drop (Suc i) src = rest"
      by (rule drop_Suc_Cons)
    have ch: "charAt src i = [c]"
      using Cons by (rule charAt_Cons)
    have tw: "takeWhile isAlphaNumU (drop i src) = c # takeWhile isAlphaNumU rest"
      using Cons c by (simp add: isAlphaU_isAlphaNumU)
    from assms have "length (takeWhile isAlphaNumU (drop (Suc i) src)) + 2 \<le> Suc e"
      by (simp add: tw rest d)
    note star = extract'_star_ref [OF TOKENS_simps(7) TOKENS_simps(9) this, unfolded rest]
    show ?thesis
      unfolding tw using c star
      by (simp add: d extract'_Seq [OF TOKENS_simps(6)] TOKENS_simps cls ch)
  qed
qed

subsection \<open>Double-quoted text as the serializer writes it\<close>

lemma substr_append: "drop i src = s @ rest \<Longrightarrow> substr src i (length s) = s"
  by (simp add: substr_def)

lemma substr_1: "drop i src = c # rest \<Longrightarrow> substr src i (Suc 0) = [c]"
  by (simp add: substr_def)

lemma substr_Nil: "drop i src = [] \<Longrightarrow> substr src i n = []"
  by (simp add: substr_def)

lemma quoteUnit_cases:
  assumes "escapable c"
  obtains (raw) "quoteUnit c = [c]" "c \<noteq> BSL" "c \<noteq> DQ"
  | (esc) e where "quoteUnit c = [BSL, e]" "isEscapeLetter e" "replacer [Str [BSL, e]] = [Str [c]]"
proof -
  consider "c = 0x08" | "c = 0x09" | "c = NL" | "c = 0x0C" | "c = 0x0D"
    | "c = DQ" | "c = BSL"
    | "c \<notin> set [0x08, 0x09, NL, 0x0C, 0x0D, DQ, BSL]"
    by auto
  then show thesis
  proof cases
    case 8
    with assms have "\<not> c < 0x20"
      by (auto simp: escapable_def)
    with 8 have "quoteUnit c = [c]"
      by (simp add: quoteUnit_def quoteChar_def)
    with 8 show ?thesis
      by (intro raw) auto
  qed (rule esc [of "last (quoteUnit c)"];
       simp add: quoteUnit_def isEscapeLetter_def quote_simps)+
qed

lemma extract'_QuotedStringChar_quoted:
  assumes c: "escapable c" and src: "drop i src = quoteUnit c @ rest"
  shows "\<exists>nm. extract' (Suc (Suc d)) ''QuotedStringChar'' \<lparr>source = src, index = i\<rparr> =
    Inr (Some (Token [Str [c]] nm), \<lparr>source = src, index = i + length (quoteUnit c)\<rparr>)"
  using c
proof (cases rule: quoteUnit_cases)
  case raw
  with src have "charAt src i = [c]"
    by (simp add: charAt_def)
  with raw show ?thesis
    by (simp add: extract'_Or [OF TOKENS_simps(17)] extract'_class [OF TOKENS_simps(21)])
next
  case (esc e)
  with src have ch: "charAt src i = [BSL]" and sub: "substr src i (Suc 0) = [BSL]"
    and ch2: "charAt src (Suc i) = [e]"
    by (simp_all add: charAt_def substr_def drop_Suc_Cons [of i src BSL "e # rest"])
  from esc show ?thesis
    by (simp add: extract'_Or [OF TOKENS_simps(17)] extract'_class [OF TOKENS_simps(21)] extract'_Replaced [OF TOKENS_simps(23)]
        ch ch2 sub Let_def)
qed

lemma extract'_QuotedStringChar_end:
  assumes src: "drop i src = DQ # rest"
  shows "extract' (Suc (Suc d)) ''QuotedStringChar'' \<lparr>source = src, index = i\<rparr> =
    Inr (None, \<lparr>source = src, index = i\<rparr>)"
proof -
  from src have ch: "charAt src i = [DQ]" and sub: "substr src i (Suc 0) = [DQ]"
    by (simp_all add: charAt_def substr_def)
  show ?thesis
    by (simp add: extract'_Or [OF TOKENS_simps(17)] extract'_class [OF TOKENS_simps(21)] extract'_Replaced [OF TOKENS_simps(23)]
        ch sub Let_def)
qed

lemma extract'_QuotedStringChars_end:
  assumes src: "drop i src = DQ # rest"
  shows "extract' (Suc (Suc (Suc d))) ''QuotedStringChars'' \<lparr>source = src, index = i\<rparr> =
    Inr (None, \<lparr>source = src, index = i\<rparr>)"
  by (simp add: extract'_Seq [OF TOKENS_simps(16)] TOKENS_simps(17) extract'_QuotedStringChar_end [OF src])

lemma extract'_QuotedStringChars_quoted:
  assumes "list_all escapable v" and "v \<noteq> []"
    and "drop i src = concat (map quoteUnit v) @ DQ # rest"
    and "length v + 3 \<le> d"
  shows "extract' d ''QuotedStringChars'' \<lparr>source = src, index = i\<rparr> =
    Inr (Some (Token [Str v] (Some ''QuotedStringChars'')),
         \<lparr>source = src, index = i + length (concat (map quoteUnit v))\<rparr>)"
  using assms
proof (induction v arbitrary: i d)
  case Nil
  then show ?case by simp
next
  case (Cons c v)
  from Cons.prems(4) obtain e where d: "d = Suc (Suc (Suc (Suc e)))"
    by (cases d; cases "d - 1"; cases "d - 2"; cases "d - 3") auto
  from Cons.prems(1) have c: "escapable c" and v: "list_all escapable v"
    by simp_all
  from Cons.prems(3) have src: "drop i src = quoteUnit c @ (concat (map quoteUnit v) @ DQ # rest)"
    by simp
  from extract'_QuotedStringChar_quoted [OF c src, of "Suc e"] obtain nm where
    first: "extract' (Suc (Suc (Suc e))) ''QuotedStringChar'' \<lparr>source = src, index = i\<rparr> =
      Inr (Some (Token [Str [c]] nm), \<lparr>source = src, index = i + length (quoteUnit c)\<rparr>)"
    by blast
  from src have rest: "drop (i + length (quoteUnit c)) src = concat (map quoteUnit v) @ DQ # rest"
    by (rule drop_add_append)
  show ?case
  proof (cases "v = []")
    case True
    with rest have "drop (i + length (quoteUnit c)) src = DQ # rest"
      by simp
    note last = extract'_QuotedStringChars_end [OF this, of e]
    show ?thesis
      unfolding d by (subst extract'_Seq [OF TOKENS_simps(16)]) (simp add: True first last TOKENS_simps(16) TOKENS_simps(17))
  next
    case False
    from Cons.prems(4) have "length v + 3 \<le> Suc (Suc (Suc e))"
      by (simp add: d)
    note more = Cons.IH [OF v False rest this]
    show ?thesis
      unfolding d by (subst extract'_Seq [OF TOKENS_simps(16)]) (simp add: first more TOKENS_simps(16) TOKENS_simps(17) add.assoc)
  qed
qed

lemma extract'_or_class:
  assumes XO: "TOKENS XO = Some (Or [XC])" and XC: "TOKENS XC = Some (Seq [Rx p])"
  shows "extract' (Suc (Suc d)) XO \<lparr>source = src, index = i\<rparr> =
    (if test p (charAt src i)
     then Inr (Some (Token [Str (charAt src i)] (Some XC)), \<lparr>source = src, index = Suc i\<rparr>)
     else Inr (None, \<lparr>source = src, index = i\<rparr>))"
  by (simp add: extract'_Or [OF XO] extract'_class [OF XC])

lemma extract'_star_or:
  assumes X: "TOKENS X = Some (Seq [Ref XO False True, Ref X True True])"
    and XO: "TOKENS XO = Some (Or [XC])" and XC: "TOKENS XC = Some (Seq [Rx p])"
  shows "length (takeWhile p (drop i src)) + 3 \<le> d \<Longrightarrow>
    extract' d X \<lparr>source = src, index = i\<rparr> =
      (if takeWhile p (drop i src) = [] then Inr (None, \<lparr>source = src, index = i\<rparr>)
       else Inr (Some (Token [Str (takeWhile p (drop i src))] (Some X)),
                 \<lparr>source = src, index = i + length (takeWhile p (drop i src))\<rparr>))"
proof (induction d arbitrary: i)
  case 0
  then show ?case by simp
next
  case (Suc d)
  from Suc.prems obtain e where d: "d = Suc (Suc e)"
    by (cases d; cases "d - 1") auto
  note cls = extract'_or_class [OF XO XC, of e, folded d]
  show ?case
  proof (cases "test p (charAt src i)")
    case False
    then have "takeWhile p (drop i src) = []"
      by (cases "drop i src") (simp_all add: charAt_def)
    with False show ?thesis
      by (simp add: extract'_Seq [OF X] XO cls)
  next
    case True
    then obtain c rest where Cons: "drop i src = c # rest" and c: "p c"
      by (cases "drop i src") (simp_all add: charAt_def)
    from Cons have rest: "drop (Suc i) src = rest"
      by (rule drop_Suc_Cons)
    from Suc.prems Cons c have "length (takeWhile p (drop (Suc i) src)) + 3 \<le> d"
      by (simp add: rest)
    note IH = Suc.IH [OF this, unfolded rest]
    have ch: "charAt src i = [c]"
      using Cons by (rule charAt_Cons)
    have tw: "takeWhile p (drop i src) = c # takeWhile p rest"
      using Cons c by simp
    show ?thesis
      unfolding tw
      by (subst extract'_Seq [OF X]) (simp add: c IH X XO cls ch)
  qed
qed

lemma quoteChar_nonempty: "quoteChar c \<noteq> []"
  by (simp add: quoteChar_def unicodeEscape_def)

lemma hd_quoteUnit: "hd (quoteUnit c) \<noteq> DQ" "quoteUnit c \<noteq> []"
  by (auto simp: quoteUnit_def quoteChar_def unicodeEscape_def isLeadingSurrogate_def
      isTrailingSurrogate_def)

text \<open>
  In a well-formed string every surrogate is half of a pair, so that \<^verbatim>\<open>JSON.stringify\<close>
  goes through it one code unit at a time.
\<close>

lemma quoteJSONString_wellFormed:
  "wellFormed v \<Longrightarrow> quoteJSONString v = concat (map quoteUnit v)"
proof (induction v rule: wellFormed.induct)
  case 1
  show ?case by simp
next
  case (2 c)
  then show ?case by (simp add: quoteUnit_def)
next
  case (3 c c' cs)
  show ?case
  proof (cases "isLeadingSurrogate c")
    case True
    with "3.prems" have "isTrailingSurrogate c'" "wellFormed cs"
      by simp_all
    with True "3.IH"(1) show ?thesis
      by (simp add: quoteUnit_def)
  next
    case False
    with "3.prems" have "\<not> isTrailingSurrogate c" "wellFormed (c' # cs)"
      by simp_all
    with False "3.IH"(2) show ?thesis
      by (simp add: quoteUnit_def)
  qed
qed

lemma serializeString_wellFormed:
  "wellFormed v \<Longrightarrow>
   serializeString v =
     (if NL \<in> set v \<and> SQ \<notin> set v then [SQ] @ v @ [SQ]
      else [DQ] @ concat (map quoteUnit v) @ [DQ])"
  by (simp add: serializeString_def JSON_stringify_def quoteJSONString_wellFormed)

lemma extract'_String_serialized:
  assumes v: "list_all escapable v" and wf: "wellFormed v"
    and src: "drop i src = serializeString v @ rest"
    and d: "length v + 5 \<le> d"
  shows "extract' d ''String'' \<lparr>source = src, index = i\<rparr> =
    Inr (Some (stringCapture v), \<lparr>source = src, index = i + length (serializeString v)\<rparr>)"
proof -
  note ser = serializeString_wellFormed [OF wf]
  from d obtain e where e: "d = Suc (Suc (Suc e))" and le: "length v + 2 \<le> e"
    by (cases d; cases "d - 1"; cases "d - 2") auto
  show ?thesis
  proof (cases "v = []")
    case True
    with src have "drop i src = [DQ, DQ] @ rest"
      by (simp add: serializeString_def JSON_stringify_def)
    then have ch: "charAt src i = [DQ]" and sub: "substr src i (Suc (Suc 0)) = [DQ, DQ]"
      by (simp_all add: charAt_def substr_def)
    show ?thesis
      by (simp add: e True extract'_Or [OF TOKENS_simps(10)] extract'_Seq [OF TOKENS_simps(11)] extract'_Seq [OF TOKENS_simps(14)]
          TOKENS_simps ch sub extract'_class [OF TOKENS_simps(12)] stringCapture_def
          serializeString_def JSON_stringify_def Let_def)
  next
    case False
    show ?thesis
    proof (cases "NL \<in> set v \<and> SQ \<notin> set v")
      case True
      with src have s: "drop i src = SQ # v @ SQ # rest"
        by (simp add: ser)
      then have ch: "charAt src i = [SQ]" and sub2: "[DQ, DQ] \<noteq> substr src i (Suc (Suc 0))"
        and sub: "substr src i (Suc 0) = [SQ]" and body: "drop (Suc i) src = v @ SQ # rest"
        by (simp_all add: charAt_def substr_def drop_Suc_Cons [of i src SQ])
      from True have tw: "takeWhile (\<lambda>c. c \<noteq> SQ) (v @ SQ # rest) = v"
        by (subst takeWhile_append2) auto
      from le have "length (takeWhile (\<lambda>c. c \<noteq> SQ) (drop (Suc i) src)) + 3 \<le> Suc e"
        by (simp add: body tw)
      note chars = extract'_star_or [OF TOKENS_simps(19) TOKENS_simps(20) TOKENS_simps(22) this, unfolded body tw]
      from body have close: "substr src (Suc (i + length v)) (Suc 0) = [SQ]"
        using drop_add_append [of "Suc i" src v "SQ # rest"] by (simp add: substr_def)
      show ?thesis
        by (simp add: e True False extract'_Or [OF TOKENS_simps(10)] extract'_Seq [OF TOKENS_simps(11)]
          extract'_Seq [OF TOKENS_simps(14)] extract'_Seq [OF TOKENS_simps(15)] extract'_Seq [OF TOKENS_simps(18)]
          TOKENS_simps ch sub sub2 chars close extract'_class [OF TOKENS_simps(12)] stringCapture_def ser Let_def)
    next
      case nl: False
      with src have s: "drop i src = DQ # concat (map quoteUnit v) @ DQ # rest"
        by (simp add: ser)
      from False obtain c w where cw: "v = c # w"
        by (cases v) auto
      from s have ch: "charAt src i = [DQ]" and sub: "substr src i (Suc 0) = [DQ]"
        and body: "drop (Suc i) src = concat (map quoteUnit v) @ DQ # rest"
        by (simp_all add: charAt_def substr_def drop_Suc_Cons [of i src DQ])
      from s cw hd_quoteUnit [of c] have sub2: "[DQ, DQ] \<noteq> substr src i (Suc (Suc 0))"
        by (cases "quoteUnit c") (simp_all add: substr_def)
      from le have "length v + 3 \<le> Suc e"
        by simp
      note chars = extract'_QuotedStringChars_quoted [OF v False body this]
      from body have close:
        "substr src (Suc (i + length (concat (map quoteUnit v)))) (Suc 0) = [DQ]"
        using drop_add_append [of "Suc i" src "concat (map quoteUnit v)" "DQ # rest"]
        by (simp add: substr_def)
      show ?thesis
        by (simp add: e nl False extract'_Or [OF TOKENS_simps(10)] extract'_Seq [OF TOKENS_simps(11)]
          extract'_Seq [OF TOKENS_simps(14)] extract'_Seq [OF TOKENS_simps(15)]
          TOKENS_simps ch sub sub2 chars close extract'_class [OF TOKENS_simps(12)] stringCapture_def ser Let_def)
    qed
  qed
qed

subsection \<open>Entries and documents as the serializer writes them\<close>

lemma not_isAlphaNumU_eq: "\<not> isAlphaNumU EQ"
  by (simp add: isAlphaNumU_def)

lemma validKey_takeWhile:
  assumes "validKey k"
  shows "takeWhile isAlphaNumU (k @ EQ # rest) = k"
proof -
  from assms have "list_all isAlphaNumU k"
    by (cases k) (auto simp: validKey_def isAlphaU_isAlphaNumU)
  then show ?thesis
    by (subst takeWhile_append2) (auto simp: list_all_iff not_isAlphaNumU_eq)
qed

lemma extract'_keyedEntry_serialized:
  assumes k: "validKey k" and v: "list_all escapable v" and wf: "wellFormed v"
    and src: "drop i src = k @ [EQ] @ serializeString v @ rest"
    and d: "length k + 3 \<le> d" "length v + 6 \<le> d"
  shows "extract' d ''keyedEntry'' \<lparr>source = src, index = i\<rparr> =
    Inr (Some (entryCapture k v),
         \<lparr>source = src, index = i + length (k @ [EQ] @ serializeString v)\<rparr>)"
proof -
  from d obtain e where e: "d = Suc e" and le: "length k + 2 \<le> e" "length v + 5 \<le> e"
    by (cases d) auto
  from k obtain c cs where kc: "k = c # cs" and c: "isAlphaU c"
    by (cases k) (auto simp: validKey_def)
  from src kc have ch: "charAt src i = [c]"
    by (simp add: charAt_def)
  from src have tw: "takeWhile isAlphaNumU (drop i src) = k"
    using validKey_takeWhile [OF k] by simp
  from le have "length (takeWhile isAlphaNumU (drop i src)) + 2 \<le> e"
    by (simp add: tw)
  note key = extract'_Key [OF this, unfolded tw]
  from src have "drop (i + length k) src = EQ # serializeString v @ rest"
    using drop_add_append [of i src k] by simp
  then have eq: "substr src (i + length k) (Suc 0) = [EQ]"
    and val: "drop (Suc (i + length k)) src = serializeString v @ rest"
    by (simp_all add: substr_def drop_Suc_Cons [of "i + length k" src])
  note str = extract'_String_serialized [OF v wf val le(2)]
  show ?thesis
    unfolding e
    by (subst extract'_Seq [OF TOKENS_simps(5)])
      (simp add: key ch c eq str TOKENS_simps(6) TOKENS_simps(10) entryCapture_def Let_def)
qed

lemma isAlphaU_not_space: "isAlphaU c \<Longrightarrow> \<not> isWhiteSpace c"
  by (auto simp: isAlphaU_def isWhiteSpace_def)

lemma isWhiteSpace_NL: "isWhiteSpace NL"
  by (simp add: isWhiteSpace_def)

lemma isAlphaU_not_hash: "isAlphaU c \<Longrightarrow> HASH \<noteq> c"
  by (auto simp: isAlphaU_def)

lemma serializeString_nonempty: "serializeString v \<noteq> []"
  by (simp add: serializeString_def JSON_stringify_def)

lemma lexTokens_entry:
  assumes k: "validKey k" and v: "list_all escapable v" and wf: "wellFormed v"
    and src: "drop i src = k @ [EQ] @ serializeString v @ rest"
    and d: "length k + 3 \<le> d" "length v + 6 \<le> d"
  shows "lexTokens d MAIN_TOKENS \<lparr>source = src, index = i\<rparr> =
    ([entryCapture k v], None,
     \<lparr>source = src, index = i + length (k @ [EQ] @ serializeString v)\<rparr>)"
proof -
  from d obtain e where e: "d = Suc e"
    by (cases d) auto
  from k obtain c cs where kc: "k = c # cs" and c: "isAlphaU c"
    by (cases k) (auto simp: validKey_def)
  from src kc have ch: "charAt src i = [c]" and sub: "substr src i (Suc 0) = [c]"
    by (simp_all add: charAt_def substr_def)
  from src kc c have "takeWhile isWhiteSpace (drop i src) = []"
    by (simp add: isAlphaU_not_space)
  with d have ws: "extract' d ''Whitespace'' \<lparr>source = src, index = i\<rparr> =
      Inr (None, \<lparr>source = src, index = i\<rparr>)"
    using extract'_star_rx [OF TOKENS_simps(1), of i src d] by simp
  have com: "extract' d ''Comment'' \<lparr>source = src, index = i\<rparr> =
      Inr (None, \<lparr>source = src, index = i\<rparr>)"
    using c by (simp add: e extract'_Seq [OF TOKENS_simps(2)] sub Let_def isAlphaU_not_hash)
  show ?thesis
    by (simp add: MAIN_TOKENS_def ws com extract'_keyedEntry_serialized [OF k v wf src d])
qed

lemma lexTokens_newline_entry:
  assumes k: "validKey k" and v: "list_all escapable v" and wf: "wellFormed v"
    and src: "drop i src = NL # k @ [EQ] @ serializeString v @ rest"
    and d: "length k + 3 \<le> d" "length v + 6 \<le> d"
  shows "lexTokens d MAIN_TOKENS \<lparr>source = src, index = i\<rparr> =
    ([Token [Str [NL]] (Some ''Whitespace''), entryCapture k v], None,
     \<lparr>source = src, index = Suc (i + length (k @ [EQ] @ serializeString v))\<rparr>)"
proof -
  from d obtain e where e: "d = Suc e"
    by (cases d) auto
  from k obtain c cs where kc: "k = c # cs" and c: "isAlphaU c"
    by (cases k) (auto simp: validKey_def)
  from src have line: "drop (Suc i) src = k @ [EQ] @ serializeString v @ rest"
    by (rule drop_Suc_Cons)
  with kc have sub: "substr src (Suc i) (Suc 0) = [c]"
    by (simp add: substr_def)
  from src kc c have "takeWhile isWhiteSpace (drop i src) = [NL]"
    by (simp add: isAlphaU_not_space isWhiteSpace_NL)
  with d have ws: "extract' d ''Whitespace'' \<lparr>source = src, index = i\<rparr> =
      Inr (Some (Token [Str [NL]] (Some ''Whitespace'')), \<lparr>source = src, index = Suc i\<rparr>)"
    using extract'_star_rx [OF TOKENS_simps(1), of i src d] by simp
  have com: "extract' d ''Comment'' \<lparr>source = src, index = Suc i\<rparr> =
      Inr (None, \<lparr>source = src, index = Suc i\<rparr>)"
    using c by (simp add: e extract'_Seq [OF TOKENS_simps(2)] sub Let_def isAlphaU_not_hash)
  show ?thesis
    by (simp add: MAIN_TOKENS_def ws com extract'_keyedEntry_serialized [OF k v wf line d])
qed

lemma serializeEntry_plain: "serializeEntry (plain p) = entryLine p"
  by (cases p) (simp add: serializeEntry_def)

lemma join_NL: "join [NL] (x # xs) = x @ concat (map (\<lambda>y. NL # y) xs)"
  by (induction xs arbitrary: x) simp_all

lemma serialize_plain:
  "serialize (plain p # map plain ps) = entryLine p @ concat (map (\<lambda>q. NL # entryLine q) ps)"
  by (simp add: serialize_def join_NL serializeEntry_plain comp_def)

lemma entryLine_nonempty: "entryLine p \<noteq> []"
  by (cases p) simp

lemma lexLoop_lines:
  assumes "list_all (roundTrips d) ps"
    and "drop i src = concat (map (\<lambda>q. NL # entryLine q) ps)"
  shows "lexLoop d src \<lparr>source = src, index = i\<rparr> =
    (concat (map (\<lambda>(k, v). [Token [Str [NL]] (Some ''Whitespace''), entryCapture k v]) ps), None)"
  using assms
proof (induction ps arbitrary: i)
  case Nil
  then show ?case
    by (simp add: lexLoop_end)
next
  case (Cons p ps)
  obtain k v where p: "p = (k, v)"
    by (cases p)
  from Cons.prems(1) p have k: "validKey k" and v: "list_all escapable v"
    and wf: "wellFormed v"
    and d: "length k + 3 \<le> d" "length v + 6 \<le> d" and ps: "list_all (roundTrips d) ps"
    by simp_all
  let ?rest = "concat (map (\<lambda>q. NL # entryLine q) ps)"
  from Cons.prems(2) p have src: "drop i src = NL # k @ [EQ] @ serializeString v @ ?rest"
    by simp
  then have lt: "index \<lparr>source = src, index = i\<rparr> < length src"
    by (cases "i < length src") simp_all
  let ?st' = "\<lparr>source = src, index = Suc (i + length (k @ [EQ] @ serializeString v))\<rparr>"
  note pass = lexTokens_newline_entry [OF k v wf src d]
  have moved: "index ?st' \<noteq> index \<lparr>source = src, index = i\<rparr>"
    by simp
  from src have "drop (Suc i) src = (k @ [EQ] @ serializeString v) @ ?rest"
    by (simp add: drop_Suc_Cons [of i src NL])
  then have "drop (Suc i + length (k @ [EQ] @ serializeString v)) src = ?rest"
    by (rule drop_add_append)
  then have "drop (Suc (i + length (k @ [EQ] @ serializeString v))) src = ?rest"
    by simp
  note IH = Cons.IH [OF ps this]
  have "lexLoop d src \<lparr>source = src, index = i\<rparr> =
      (case lexLoop d src ?st' of
         (ws, e) \<Rightarrow> ([Token [Str [NL]] (Some ''Whitespace''), entryCapture k v] @ ws, e))"
    by (rule lexLoop_next [OF lt pass moved])
  then show ?case
    unfolding IH by (simp add: p)
qed

lemma lex_serialize_plain:
  assumes "list_all (roundTrips d) (p # ps)"
  shows "lex d (serialize (map plain (p # ps))) =
    (entryCapture (fst p) (snd p) #
       concat (map (\<lambda>(k, v). [Token [Str [NL]] (Some ''Whitespace''), entryCapture k v]) ps),
     None)"
proof -
  obtain k v where p: "p = (k, v)"
    by (cases p)
  from assms p have k: "validKey k" and v: "list_all escapable v"
    and wf: "wellFormed v"
    and d: "length k + 3 \<le> d" "length v + 6 \<le> d" and ps: "list_all (roundTrips d) ps"
    by simp_all
  let ?src = "serialize (map plain (p # ps))"
  let ?rest = "concat (map (\<lambda>q. NL # entryLine q) ps)"
  have src: "drop 0 ?src = k @ [EQ] @ serializeString v @ ?rest"
    by (simp add: serialize_plain p del: plain.simps)
  then have lt: "index \<lparr>source = ?src, index = 0\<rparr> < length ?src"
    by (cases ?src) simp_all
  let ?st' = "\<lparr>source = ?src, index = 0 + length (k @ [EQ] @ serializeString v)\<rparr>"
  note pass = lexTokens_entry [OF k v wf src d]
  have moved: "index ?st' \<noteq> index \<lparr>source = ?src, index = 0\<rparr>"
    by simp
  from src have "drop 0 ?src = (k @ [EQ] @ serializeString v) @ ?rest"
    by simp
  then have "drop (0 + length (k @ [EQ] @ serializeString v)) ?src = ?rest"
    by (rule drop_add_append)
  note tail = lexLoop_lines [OF ps this]
  have "lexLoop d ?src \<lparr>source = ?src, index = 0\<rparr> =
      (case lexLoop d ?src ?st' of (ws, e) \<Rightarrow> ([entryCapture k v] @ ws, e))"
    by (rule lexLoop_next [OF lt pass moved])
  then show ?thesis
    unfolding lex_def tail by (simp add: p)
qed

lemma assemble_whitespace:
  "assemble xd acc (Token [Str [NL]] (Some ''Whitespace'')) = Inr acc"
  by (cases acc) (simp add: assemble_def)

lemma parseString_stringCapture: "parseString (JObject (stringCapture v)) = Inr (JString v)"
  by (simp add: stringCapture_def at_def)

lemma at_simps:
  "at [a, b, Sub t] 0 = (case a of Str s \<Rightarrow> JString s | Sub u \<Rightarrow> JObject u)"
  "at [a, b, Sub t] 2 = JObject t"
  "at [Str s] 0 = JString s"
  by (simp_all add: at_def)

lemma assemble_entryCapture:
  "assemble False (m, l) (entryCapture k v) = Inr (assign m k (Plain v), [])"
  by (simp add: assemble_def entryCapture_def at_simps parseString_stringCapture
      del: parseString.simps)

lemma assembleAll_lines:
  "assembleAll False (m, [])
     (concat (map (\<lambda>(k, v). [Token [Str [NL]] (Some ''Whitespace''), entryCapture k v]) ps)) =
   Inr (foldl (\<lambda>m (k, v). assign m k (Plain v)) m ps, [])"
  by (induction ps arbitrary: m) (auto simp: assemble_whitespace assemble_entryCapture)

lemma update_fresh: "k \<notin> fst ` set m \<Longrightarrow> AList.update k v m = m @ [(k, v)]"
  by (induction m) auto

lemma foldl_assign_fresh:
  assumes "distinct (map fst m @ map fst ps)" and "ascii ''__proto__'' \<notin> fst ` set ps"
  shows "foldl (\<lambda>m (k, v). assign m k (Plain v)) m ps = m @ map plain ps"
  using assms
proof (induction ps arbitrary: m)
  case Nil
  then show ?case by simp
next
  case (Cons p ps)
  obtain k v where p: "p = (k, v)"
    by (cases p)
  from Cons.prems p have fresh: "k \<notin> fst ` set m" and k: "k \<noteq> ascii ''__proto__''"
    by auto
  then have step: "assign m k (Plain v) = m @ [(k, Plain v)]"
    by (simp add: assign_def update_fresh)
  from Cons.prems p have "distinct (map fst (m @ [(k, Plain v)]) @ map fst ps)"
    and "ascii ''__proto__'' \<notin> fst ` set ps"
    by auto
  from Cons.IH [OF this] step p show ?case
    by simp
qed

lemma lex_empty: "lex d [] = ([], None)"
  by (simp add: lex_def lexLoop_end)

lemma parse_serialize_plain:
  assumes "distinct (map fst ps)" and "ascii ''__proto__'' \<notin> fst ` set ps"
    and "list_all (roundTrips d) ps"
  shows "parse d (serialize (map plain ps)) False = Inr (map plain ps)"
proof (cases ps)
  case Nil
  then show ?thesis
    by (simp add: parse_def serialize_def lex_empty)
next
  case (Cons p qs)
  obtain k v where p: "p = (k, v)"
    by (cases p)
  from assms Cons p have "distinct (map fst [(k, Plain v)] @ map fst qs)"
    and "ascii ''__proto__'' \<notin> fst ` set qs" and k: "k \<noteq> ascii ''__proto__''"
    by auto
  note rest = foldl_assign_fresh [OF this(1,2)]
  from assms(3) Cons have "list_all (roundTrips d) (p # qs)"
    by simp
  note lexed = lex_serialize_plain [OF this]
  from k have first: "assign [] k (Plain v) = [(k, Plain v)]"
    by (simp add: assign_def)
  show ?thesis
    unfolding Cons parse_def lexed
    by (simp add: p assemble_entryCapture assembleAll_lines first rest)
qed

section \<open>The documents \<^verbatim>\<open>parse\<close> returns\<close>

text \<open>
  Every entry token the lexer yields starts with the capture of the key rule, a string
  of the form \<^verbatim>\<open>[A-Za-z_][A-Za-z0-9_]*\<close>. So the documents \<^verbatim>\<open>parse\<close> returns without
  descriptions have distinct keys of that form, none of them \<^verbatim>\<open>__proto__\<close>, bound to plain
  strings.
\<close>

lemma state_eta: "\<lparr>source = source st, index = index st\<rparr> = (st :: state)"
  by simp

lemma extract'_Seq_name:
  assumes "extract' d name st = Inr (Some tok, st')" and "TOKENS name = Some (Seq parts)"
  shows "tname tok = Some name"
proof (cases d)
  case 0
  with assms show ?thesis by simp
next
  case (Suc e)
  with assms show ?thesis
    by (auto simp: extract'_Seq [OF assms(2)] split: sum.splits option.splits)
qed

lemma extractParts_extends:
  "extractParts d parts src i ev = Inr (Some (j, ev')) \<Longrightarrow> \<exists>more. ev' = ev @ more"
proof (induction parts arbitrary: i ev)
  case Nil
  then show ?case by simp
next
  case (Cons part parts)
  show ?case
  proof (cases part)
    case (Lit s)
    with Cons.prems obtain i' where
      "extractParts d parts src i' (ev @ [Str (substr src i (length s))]) = Inr (Some (j, ev'))"
      by (auto simp: Let_def split: if_splits)
    from Cons.IH [OF this] show ?thesis by auto
  next
    case (Rx p)
    with Cons.prems obtain i' where
      "extractParts d parts src i' (ev @ [Str (charAt src i)]) = Inr (Some (j, ev'))"
      by (auto simp: Let_def split: if_splits)
    from Cons.IH [OF this] show ?thesis by auto
  next
    case (Ref type optional flatten)
    with Cons.prems consider "ev' = ev"
      | i' v where "extractParts d parts src i'
          (if flatten then ev @ tvalue v else ev @ [Sub v]) = Inr (Some (j, ev'))"
      by (auto split: option.splits sum.splits prod.splits if_splits)
    then show ?thesis
    proof cases
      case 1
      then show ?thesis by simp
    next
      case 2
      from Cons.IH [OF this] show ?thesis
        by (auto split: if_splits)
    qed
  qed
qed

lemma foldl_pushSanitized_Sub:
  "foldl pushSanitized (Sub t # acc) xs = Sub t # foldl pushSanitized acc xs"
proof (induction xs arbitrary: acc)
  case Nil
  then show ?case by simp
next
  case (Cons x xs)
  have "pushSanitized (Sub t # acc) x = Sub t # pushSanitized acc x"
    by (cases x) (auto split: element.splits)
  with Cons.IH show ?case by simp
qed

lemma sanitize_Sub: "sanitize (Sub t # xs) = Sub t # sanitize xs"
  using foldl_pushSanitized_Sub [of t "[]" xs] by (simp add: sanitize_def)

lemma extract'_Key_shape:
  assumes "extract' d ''Key'' \<lparr>source = src, index = i\<rparr> = Inr (Some kt, st')"
  shows "\<exists>k. kt = Token [Str k] (Some ''Key'') \<and> validKey k"
proof -
  let ?run = "takeWhile isAlphaNumU (drop i src)"
  let ?d = "max d (length ?run + 2)"
  from assms have "extract' ?d ''Key'' \<lparr>source = src, index = i\<rparr> = Inr (Some kt, st')"
    using extract'_deeper(1) [of d "''Key''" "\<lparr>source = src, index = i\<rparr>" ?d] by simp
  moreover have "length ?run + 2 \<le> ?d"
    by simp
  note extract'_Key [OF this]
  ultimately have t: "test isAlphaU (charAt src i)" and kt: "kt = Token [Str ?run] (Some ''Key'')"
    by (auto split: if_splits)
  from t obtain c rest where "drop i src = c # rest" "isAlphaU c"
    by (cases "drop i src") (simp_all add: charAt_def)
  then have "validKey ?run"
    by (simp add: validKey_def isAlphaU_isAlphaNumU list_all_iff) (meson set_takeWhileD)
  with kt show ?thesis by blast
qed

lemma extract'_keyedEntry_shape:
  assumes "extract' d ''keyedEntry'' st = Inr (Some tok, st')"
  shows "keyShape tok"
proof (cases d)
  case 0
  with assms show ?thesis by simp
next
  case (Suc e)
  let ?key = "extract' e ''Key'' \<lparr>source = source st, index = index st\<rparr>"
  from assms Suc obtain j ev where
    parts: "extractParts e [Ref ''Key'' False False, Lit [EQ], Ref ''String'' True False]
       (source st) (index st) [] = Inr (Some (j, ev))"
    and tok: "tok = Token (sanitize ev) (Some ''keyedEntry'')"
    by (auto simp: extract'_Seq [OF TOKENS_simps(5)] split: sum.splits option.splits)
  from parts obtain kt sub where key: "?key = Inr (Some kt, sub)"
    and rest: "extractParts e [Lit [EQ], Ref ''String'' True False] (source st) (index sub)
       [Sub kt] = Inr (Some (j, ev))"
    by (simp add: TOKENS_simps(6) split: sum.splits option.splits prod.splits)
  from extractParts_extends [OF rest] obtain more where ev: "ev = Sub kt # more"
    by auto
  from extract'_Key_shape [OF key] obtain k where "kt = Token [Str k] (Some ''Key'')" "validKey k"
    by blast
  with tok ev show ?thesis
    by (simp add: sanitize_Sub)
qed

lemma extract'_main_good:
  assumes "name \<in> set MAIN_TOKENS" and "extract' d name st = Inr (Some tok, st')"
  shows "goodToken tok"
proof -
  from assms(1) consider "name = ''Whitespace''" | "name = ''Comment''" | "name = ''keyedEntry''"
    by (auto simp: MAIN_TOKENS_def)
  then show ?thesis
  proof cases
    case 1
    with extract'_Seq_name [OF assms(2)] TOKENS_simps(1) show ?thesis
      by (simp add: goodToken_def)
  next
    case 2
    with extract'_Seq_name [OF assms(2)] TOKENS_simps(2) show ?thesis
      by (simp add: goodToken_def)
  next
    case 3
    with extract'_keyedEntry_shape assms(2) show ?thesis
      by (simp add: goodToken_def)
  qed
qed

lemma lexTokens_good:
  assumes "set ts \<subseteq> set MAIN_TOKENS" and "lexTokens d ts st = (vs, e, st')"
  shows "list_all goodToken vs"
  using assms
proof (induction ts arbitrary: st vs e st')
  case Nil
  then show ?case by simp
next
  case (Cons t ts)
  from Cons.prems(1) have t: "t \<in> set MAIN_TOKENS" and ts: "set ts \<subseteq> set MAIN_TOKENS"
    by simp_all
  show ?case
  proof (cases "extract' d t st")
    case (Inl err)
    with Cons.prems(2) show ?thesis by simp
  next
    case (Inr p)
    obtain r st1 where p: "p = (r, st1)" by (cases p)
    show ?thesis
    proof (cases r)
      case None
      with Cons.prems(2) Inr p have "lexTokens d ts st1 = (vs, e, st')"
        by simp
      from Cons.IH [OF ts this] show ?thesis .
    next
      case (Some v)
      obtain ws e1 st2 where more: "lexTokens d ts st1 = (ws, e1, st2)"
        using prod_cases3 by blast
      with Cons.prems(2) Inr p Some have vs: "vs = v # ws"
        by simp
      from extract'_main_good [OF t] Inr p Some have "goodToken v"
        by simp
      with Cons.IH [OF ts more] vs show ?thesis by simp
    qed
  qed
qed

lemma lexLoop_good: "list_all goodToken (fst (lexLoop d src st))"
proof (induction d src st rule: lexLoop.induct)
  case (1 d src st)
  show ?case
  proof (cases "index st < length src")
    case False
    then show ?thesis by (simp add: lexLoop_end)
  next
    case True
    obtain vs e st' where pass: "lexTokens d MAIN_TOKENS st = (vs, e, st')"
      using prod_cases3 by blast
    from lexTokens_good [OF subset_refl pass] have vs: "list_all goodToken vs" .
    show ?thesis
    proof (cases e)
      case (Some err)
      with lexLoop_thrown [OF True pass [unfolded Some]] vs show ?thesis by simp
    next
      case None
      note pass' = pass [unfolded None]
      show ?thesis
      proof (cases "index st' = index st")
        case same: True
        with lexLoop_stuck [OF True pass' same] vs show ?thesis by simp
      next
        case False
        then have "index st \<noteq> index st'" by simp
        from "1.IH" [OF True refl pass [symmetric] refl None this]
        have "list_all goodToken (fst (lexLoop d src st'))" .
        with lexLoop_next [OF True pass' False] vs show ?thesis
          by (simp split: prod.splits)
      qed
    qed
  qed
qed

lemma keyShape_key:
  assumes "keyShape tok"
  obtains k where "valueAt (at (tvalue tok) 0) 0 = Inr (JString k)" "validKey k"
proof -
  from assms obtain k nm rest where "tvalue tok = Sub (Token [Str k] nm) # rest" "validKey k"
    by (cases tok rule: keyShape.cases) simp_all
  then show thesis
    by (intro that [of k]) (simp_all add: at_def)
qed

lemma plainDocument_assign:
  assumes "plainDocument m" and "validKey k"
  shows "plainDocument (assign m k (Plain v))"
proof (cases "k = ascii ''__proto__''")
  case True
  with assms show ?thesis by (simp add: assign_def)
next
  case False
  from assms(1) have "distinct (map fst (AList.update k (Plain v) m))"
    by (simp add: plainDocument_def distinct_update)
  moreover from assms False have "list_all plainEntry (AList.update k (Plain v) m)"
    unfolding plainDocument_def by (induction m) auto
  ultimately show ?thesis
    using False by (simp add: assign_def plainDocument_def)
qed

lemma assemble_plainDocument:
  assumes "goodToken tok" and "plainDocument m"
    and "assemble False (m, l) tok = Inr (m', l')"
  shows "plainDocument m'"
proof (cases "tname tok = Some ''keyedEntry''")
  case False
  with assms(2,3) show ?thesis
    by (auto simp: assemble_def split: if_splits sum.splits)
next
  case True
  with assms(1) have "keyShape tok"
    by (simp add: goodToken_def)
  then obtain k where k: "valueAt (at (tvalue tok) 0) 0 = Inr (JString k)" "validKey k"
    by (rule keyShape_key)
  from assms(3) True k obtain val where "m' = assign m k (Plain val)"
    by (auto simp: assemble_def split: if_splits sum.splits)
  with plainDocument_assign [OF assms(2) k(2)] show ?thesis
    by simp
qed

lemma assembleAll_plainDocument:
  assumes "list_all goodToken toks" and "plainDocument m"
    and "assembleAll False (m, l) toks = Inr (m', l')"
  shows "plainDocument m'"
  using assms
proof (induction toks arbitrary: m l)
  case Nil
  then show ?case by simp
next
  case (Cons tok toks)
  from Cons.prems(3) obtain m1 l1 where step: "assemble False (m, l) tok = Inr (m1, l1)"
    and rest: "assembleAll False (m1, l1) toks = Inr (m', l')"
    by (auto split: sum.splits)
  from Cons.prems(1) have "goodToken tok" and toks: "list_all goodToken toks"
    by simp_all
  from assemble_plainDocument [OF this(1) Cons.prems(2) step] have "plainDocument m1" .
  from Cons.IH [OF toks this rest] show ?case .
qed

lemma parse_plainDocument:
  assumes "parse d src False = Inr doc"
  shows "plainDocument doc"
proof -
  obtain toks thrown where lexed: "lex d src = (toks, thrown)"
    by (cases "lex d src")
  from lexLoop_good [of d src "\<lparr>source = src, index = 0\<rparr>"] lexed
  have good: "list_all goodToken toks"
    by (simp add: lex_def)
  from assms lexed obtain l where "assembleAll False ([], []) toks = Inr (doc, l)"
    by (auto simp: parse_def split: sum.splits option.splits)
  from assembleAll_plainDocument [OF good _ this] show ?thesis
    by (simp add: plainDocument_def)
qed

lemma noControl_escapable: "noControl s \<Longrightarrow> list_all escapable s"
  by (simp add: noControl_def escapable_def list_all_iff)

lemma length_quoted: "length v \<le> length (quoteJSONString v)"
proof (induction v rule: quoteJSONString.induct)
  case 1
  show ?case by simp
next
  case (2 c)
  from quoteChar_nonempty [of c] show ?case
    by (cases "quoteChar c") simp_all
next
  case (3 c c' cs)
  from quoteChar_nonempty [of c] have "1 \<le> length (quoteChar c)"
    by (cases "quoteChar c") simp_all
  with 3 show ?case by auto
qed

lemma length_serializeString: "length v + 2 \<le> length (serializeString v)"
  using length_quoted [of v] by (simp add: serializeString_def JSON_stringify_def)

lemma roundTrips_by_length:
  assumes "validKey k" and "list_all escapable v" and "wellFormed v"
    and "length (entryLine (k, v)) + 2 \<le> d"
  shows "roundTrips d (k, v)"
proof -
  from assms(1) have "1 \<le> length k"
    by (cases k) (simp_all add: validKey_def)
  with assms length_serializeString [of v] show ?thesis
    by simp
qed

lemma length_entryLine_concat:
  "p \<in> set ps \<Longrightarrow> length (entryLine p) \<le> length (concat (map (\<lambda>q. NL # entryLine q) ps))"
  by (induction ps) auto

lemma length_entryLine_serialize:
  assumes "p \<in> set ps"
  shows "length (entryLine p) \<le> length (serialize (map plain ps))"
proof (cases ps)
  case Nil
  with assms show ?thesis by simp
next
  case (Cons q qs)
  with assms length_entryLine_concat [of p qs] show ?thesis
    by (auto simp: serialize_plain simp del: plain.simps entryLine.simps)
qed

lemma plainDocument_plain:
  assumes "plainDocument doc"
  shows "doc = map plain (map (\<lambda>(k, e). (k, entryValue e)) doc)"
proof -
  have "plainEntry p \<Longrightarrow> plain (case p of (k, e) \<Rightarrow> (k, entryValue e)) = p" for p
    by (cases p rule: plainEntry.cases) simp_all
  with assms show ?thesis
    by (simp add: plainDocument_def list_all_iff map_idI)
qed

lemma parse_serialize_plainDocument:
  assumes doc: "plainDocument doc"
    and vals: "list_all (\<lambda>(k, e). list_all escapable (entryValue e) \<and> wellFormed (entryValue e)) doc"
    and d: "length (serialize doc) + 2 \<le> d"
  shows "parse d (serialize doc) False = Inr doc"
proof -
  let ?ps = "map (\<lambda>(k, e). (k, entryValue e)) doc"
  note eq = plainDocument_plain [OF doc]
  have fst: "map fst ?ps = map fst doc"
    by (induction doc) auto
  from doc have distinct: "distinct (map fst ?ps)"
    unfolding fst by (simp add: plainDocument_def)
  from doc have proto: "ascii ''__proto__'' \<notin> fst ` set ?ps"
    unfolding plainDocument_def list_all_iff
    by (auto elim!: plainEntry.elims)
  have "roundTrips d p" if p: "p \<in> set ?ps" for p
  proof -
    obtain k v where kv: "p = (k, v)" by (cases p)
    from p kv obtain e where e: "(k, e) \<in> set doc" "v = entryValue e"
      by auto
    from doc e(1) have "plainEntry (k, e)"
      by (simp add: plainDocument_def list_all_iff)
    then have k: "validKey k"
      by (cases e) simp_all
    from vals e have v: "list_all escapable v" and wf: "wellFormed v"
      by (auto simp: list_all_iff)
    from length_entryLine_serialize [OF p] eq d have "length (entryLine (k, v)) + 2 \<le> d"
      by (simp add: kv)
    from roundTrips_by_length [OF k v wf this] kv show ?thesis by simp
  qed
  then have "list_all (roundTrips d) ?ps"
    by (simp add: list_all_iff)
  from parse_serialize_plain [OF distinct proto this] eq show ?thesis
    by simp
qed

section \<open>Round trips\<close>

text \<open>
  Claim C1 says that every document \<^verbatim>\<open>parse\<close> returns with \<^verbatim>\<open>extractDescriptions: false\<close>
  and without control characters in its values is read back from its serialization. It
  fails for a value that holds a surrogate without its partner, which is no control
  character: the rule for unquoted strings accepts the code unit U+D800, \<^verbatim>\<open>JSON.stringify\<close>
  writes it as \<^verbatim>\<open>\ud800\<close>, and the grammar knows no such escape, so the quoted string ends
  before the backslash and the lexer throws there.
\<close>

theorem parse_serialize_surrogate_counterexample:
  "parse 20 (ascii ''A='' @ [0xD800]) False = Inr [(ascii ''A'', Plain [0xD800])]
   \<and> noControl [0xD800]
   \<and> serialize [(ascii ''A'', Plain [0xD800])] = ascii ''A=\"'' @ [BSL] @ ascii ''ud800\"''
   \<and> parse 20 (serialize [(ascii ''A'', Plain [0xD800])]) False =
       Inl (Unexpected [BSL] 3 ([BSL] @ ascii ''ud800\"''))"
proof -
  have "parse 20 (ascii ''A='' @ [0xD800]) False = Inr [(ascii ''A'', Plain [0xD800])]"
    by (simp add: eval_simps)
  moreover have "noControl [0xD800]"
    by (simp add: noControl_def)
  moreover have "serialize [(ascii ''A'', Plain [0xD800])] =
      ascii ''A=\"'' @ [BSL] @ ascii ''ud800\"''"
    by (simp add: serialize_def serializeEntry_def serializeString_def JSON_stringify_def
        quote_simps)
  moreover have "parse 20 (ascii ''A=\"'' @ [BSL] @ ascii ''ud800\"'') False =
      Inl (Unexpected [BSL] 3 ([BSL] @ ascii ''ud800\"''))"
    by (simp add: eval_simps)
  ultimately show ?thesis
    by simp
qed

text \<open>
  Claim C1, amended. For every document \<open>doc\<close> that \<^verbatim>\<open>parse\<close> returns with
  \<^verbatim>\<open>extractDescriptions: false\<close> and whose values contain no control character (no code
  unit below 0x20) and no surrogate without its partner, \<^verbatim>\<open>parse(serialize(doc))\<close> returns
  \<open>doc\<close>, with any call depth of at least the length of the serialized text plus two.
\<close>

theorem parse_serialize_roundtrip:
  assumes "parse d0 src False = Inr doc"
    and "list_all (\<lambda>p. noControl (entryValue (snd p)) \<and> wellFormed (entryValue (snd p))) doc"
    and "length (serialize doc) + 2 \<le> d"
  shows "parse d (serialize doc) False = Inr doc"
proof -
  from assms(1) have "plainDocument doc"
    by (rule parse_plainDocument)
  moreover from assms(2) have
    "list_all (\<lambda>(k, e). list_all escapable (entryValue e) \<and> wellFormed (entryValue e)) doc"
    by (induction doc) (auto simp: noControl_escapable)
  ultimately show ?thesis
    using assms(3) by (rule parse_serialize_plainDocument)
qed

theorem parse_serialize_roundtrip_witness:
  "parse 20 (serialize [(ascii ''A'', Plain (ascii ''x '' @ [0xD83D, 0xDE00])),
                        (ascii ''B'', Plain (ascii ''q''))]) False =
     Inr [(ascii ''A'', Plain (ascii ''x '' @ [0xD83D, 0xDE00])), (ascii ''B'', Plain (ascii ''q''))]"
proof -
  have "parse 10 (ascii ''A=x '' @ [0xD83D, 0xDE00, NL] @ ascii ''B=\"q\"'') False =
      Inr [(ascii ''A'', Plain (ascii ''x '' @ [0xD83D, 0xDE00])),
           (ascii ''B'', Plain (ascii ''q''))]"
    by (simp add: eval_simps)
  moreover have
    "list_all (\<lambda>p. noControl (entryValue (snd p)) \<and> wellFormed (entryValue (snd p)))
      [(ascii ''A'', Plain (ascii ''x '' @ [0xD83D, 0xDE00])), (ascii ''B'', Plain (ascii ''q''))]"
    by (simp add: noControl_def quote_simps)
  moreover have
    "length (serialize [(ascii ''A'', Plain (ascii ''x '' @ [0xD83D, 0xDE00])),
                        (ascii ''B'', Plain (ascii ''q''))]) + 2 \<le> 20"
    by (simp add: serialize_def serializeEntry_def serializeString_def JSON_stringify_def
        quote_simps)
  ultimately show ?thesis
    by (rule parse_serialize_roundtrip)
qed




section \<open>Values that are cut short\<close>

text \<open>
  An entry token, given what the string rule captures after the \<^verbatim>\<open>=\<close>.
\<close>

lemma extract'_keyedEntry_with:
  assumes k: "validKey k"
    and src: "drop i src = k @ [EQ] @ rest"
    and str: "extract' e ''String'' \<lparr>source = src, index = Suc (i + length k)\<rparr> =
      Inr (Some s, \<lparr>source = src, index = j\<rparr>)"
    and e: "length k + 2 \<le> e"
  shows "extract' (Suc e) ''keyedEntry'' \<lparr>source = src, index = i\<rparr> =
    Inr (Some (Token [Sub (Token [Str k] (Some ''Key'')), Str [EQ], Sub s] (Some ''keyedEntry'')),
         \<lparr>source = src, index = j\<rparr>)"
proof -
  from k obtain c cs where kc: "k = c # cs" and c: "isAlphaU c"
    by (cases k) (auto simp: validKey_def)
  from src kc have ch: "charAt src i = [c]"
    by (simp add: charAt_def)
  from src have tw: "takeWhile isAlphaNumU (drop i src) = k"
    using validKey_takeWhile [OF k] by simp
  from e have "length (takeWhile isAlphaNumU (drop i src)) + 2 \<le> e"
    by (simp add: tw)
  note key = extract'_Key [OF this, unfolded tw]
  from src have "drop (i + length k) src = EQ # rest"
    using drop_add_append [of i src k] by simp
  then have eq: "substr src (i + length k) (Suc 0) = [EQ]"
    by (simp add: substr_def)
  show ?thesis
    by (subst extract'_Seq [OF TOKENS_simps(5)])
      (simp add: key ch c eq str TOKENS_simps(6) TOKENS_simps(10) Let_def)
qed

lemma lexTokens_entry_with:
  assumes k: "validKey k"
    and src: "drop i src = k @ [EQ] @ rest"
    and str: "extract' e ''String'' \<lparr>source = src, index = Suc (i + length k)\<rparr> =
      Inr (Some s, \<lparr>source = src, index = j\<rparr>)"
    and e: "length k + 2 \<le> e"
  shows "lexTokens (Suc e) MAIN_TOKENS \<lparr>source = src, index = i\<rparr> =
    ([Token [Sub (Token [Str k] (Some ''Key'')), Str [EQ], Sub s] (Some ''keyedEntry'')], None,
     \<lparr>source = src, index = j\<rparr>)"
proof -
  from k obtain c cs where kc: "k = c # cs" and c: "isAlphaU c"
    by (cases k) (auto simp: validKey_def)
  from src kc have ch: "charAt src i = [c]" and sub: "substr src i (Suc 0) = [c]"
    by (simp_all add: charAt_def substr_def)
  from src kc c have "takeWhile isWhiteSpace (drop i src) = []"
    by (simp add: isAlphaU_not_space)
  then have ws: "extract' (Suc e) ''Whitespace'' \<lparr>source = src, index = i\<rparr> =
      Inr (None, \<lparr>source = src, index = i\<rparr>)"
    using extract'_star_rx [OF TOKENS_simps(1), of i src "Suc e"] by simp
  have com: "extract' (Suc e) ''Comment'' \<lparr>source = src, index = i\<rparr> =
      Inr (None, \<lparr>source = src, index = i\<rparr>)"
    using c by (simp add: extract'_Seq [OF TOKENS_simps(2)] sub Let_def isAlphaU_not_hash)
  show ?thesis
    by (simp add: MAIN_TOKENS_def ws com extract'_keyedEntry_with [OF k src str e])
qed

lemma extract'_String_lone_quote:
  assumes src: "drop j src = [DQ]"
  shows "extract' (Suc (Suc (Suc (Suc (Suc e))))) ''String'' \<lparr>source = src, index = j\<rparr> =
    Inr (Some (Token [Str [DQ]] (Some ''QuotedString'')), \<lparr>source = src, index = Suc j\<rparr>)"
proof -
  from src have ch: "charAt src j = [DQ]" and sub: "substr src j (Suc 0) = [DQ]"
    and sub2: "[DQ, DQ] \<noteq> substr src j (Suc (Suc 0))"
    and ch1: "charAt src (Suc j) = []" and sub1: "substr src (Suc j) (Suc 0) = []"
    by (simp_all add: charAt_def substr_def drop_Suc_Cons [of j src DQ "[]"])
  have chars: "extract' (Suc (Suc (Suc e))) ''QuotedStringChars''
      \<lparr>source = src, index = Suc j\<rparr> = Inr (None, \<lparr>source = src, index = Suc j\<rparr>)"
    by (simp add: extract'_Seq [OF TOKENS_simps(16)] TOKENS_simps(17)
        extract'_Or [OF TOKENS_simps(17)] extract'_class [OF TOKENS_simps(21)]
        extract'_Replaced [OF TOKENS_simps(23)] ch1 sub1 Let_def)
  show ?thesis
    by (simp add: extract'_Or [OF TOKENS_simps(10)] extract'_Seq [OF TOKENS_simps(11)]
        extract'_Seq [OF TOKENS_simps(14)] extract'_Seq [OF TOKENS_simps(15)]
        extract'_class [OF TOKENS_simps(12)] TOKENS_simps ch sub sub2 chars Let_def)
qed

lemma extract'_String_empty_quotes:
  assumes src: "drop j src = SQ # SQ # rest"
  shows "extract' (Suc (Suc (Suc (Suc (Suc e))))) ''String'' \<lparr>source = src, index = j\<rparr> =
    Inr (Some (Token [Str [SQ]] (Some ''SingleQuotedString'')), \<lparr>source = src, index = Suc j\<rparr>)"
proof -
  from src have ch: "charAt src j = [SQ]" and sub: "substr src j (Suc 0) = [SQ]"
    and sub2: "[DQ, DQ] \<noteq> substr src j (Suc (Suc 0))"
    and body: "drop (Suc j) src = SQ # rest"
    by (simp_all add: charAt_def substr_def drop_Suc_Cons [of j src SQ])
  have "length (takeWhile (\<lambda>c. c \<noteq> SQ) (drop (Suc j) src)) + 3 \<le> Suc (Suc (Suc e))"
    by (simp add: body)
  note chars = extract'_star_or [OF TOKENS_simps(19) TOKENS_simps(20) TOKENS_simps(22) this,
      unfolded body, simplified]
  show ?thesis
    by (simp add: extract'_Or [OF TOKENS_simps(10)] extract'_Seq [OF TOKENS_simps(11)]
        extract'_Seq [OF TOKENS_simps(14)] extract'_Seq [OF TOKENS_simps(15)]
        extract'_Seq [OF TOKENS_simps(18)]
        extract'_class [OF TOKENS_simps(12)] TOKENS_simps ch sub sub2 chars Let_def)
qed

text \<open>
  Claim C9. For every input that consists of a key, \<^verbatim>\<open>=\<close> and a lone double quote at the
  end, \<^verbatim>\<open>parse\<close> returns rather than throws: the inner rule of the quoted string fails, the
  loop over the parts is left by \<^verbatim>\<open>break\<close> before the closing quote is looked at, the
  capture holds the opening quote alone, and the decoder answers the empty string for a
  capture that has not three elements. The result is the mapping after the assignment
  \<^verbatim>\<open>map[key] = ''\<close>, which binds the key to the empty string (for every key but
  \<^verbatim>\<open>__proto__\<close>, where the assignment creates no property).
\<close>

theorem parse_unterminated_double_quote:
  assumes "validKey K" and "length K + 3 \<le> d" and "6 \<le> d"
  shows "lex d (K @ [EQ, DQ]) =
      ([Token [Sub (Token [Str K] (Some ''Key'')), Str [EQ],
               Sub (Token [Str [DQ]] (Some ''QuotedString''))] (Some ''keyedEntry'')], None)
    \<and> parseString (JObject (Token [Str [DQ]] (Some ''QuotedString''))) = Inr (JString [])
    \<and> parse d (K @ [EQ, DQ]) False = Inr (assign [] K (Plain []))
    \<and> (K \<noteq> ascii ''__proto__'' \<longrightarrow> parse d (K @ [EQ, DQ]) False = Inr [(K, Plain [])])"
proof -
  let ?src = "K @ [EQ, DQ]"
  from assms(2,3) obtain e where d: "d = Suc (Suc (Suc (Suc (Suc (Suc e)))))"
    and le: "length K + 2 \<le> Suc (Suc (Suc (Suc (Suc e))))"
    by (cases d; cases "d - 1"; cases "d - 2"; cases "d - 3"; cases "d - 4"; cases "d - 5") auto
  have src: "drop 0 ?src = K @ [EQ] @ [DQ]"
    by simp
  have "drop (Suc (0 + length K)) ?src = [DQ]"
    by simp
  note str = extract'_String_lone_quote [OF this, of e]
  let ?tok = "Token [Sub (Token [Str K] (Some ''Key'')), Str [EQ],
      Sub (Token [Str [DQ]] (Some ''QuotedString''))] (Some ''keyedEntry'')"
  let ?st' = "\<lparr>source = ?src, index = Suc (Suc (0 + length K))\<rparr>"
  note pass = lexTokens_entry_with [OF assms(1) src str le]
  have "lexLoop d ?src \<lparr>source = ?src, index = 0\<rparr> =
      (case lexLoop d ?src ?st' of (ws, e) \<Rightarrow> ([?tok] @ ws, e))"
    unfolding d by (rule lexLoop_next [OF _ pass]) simp_all
  moreover have "lexLoop d ?src ?st' = ([], None)"
    by (rule lexLoop_end) simp
  ultimately have lexed: "lex d ?src = ([?tok], None)"
    by (simp add: lex_def)
  then have "parse d ?src False = Inr (assign [] K (Plain []))"
    by (simp add: parse_def assemble_def at_def)
  with lexed show ?thesis
    by (simp add: assign_def)
qed

theorem parse_unterminated_double_quote_witness:
  "parse 6 (ascii ''A=\"'') False = Inr [(ascii ''A'', Plain [])]"
proof -
  have "validKey (ascii ''A'')"
    by (simp add: validKey_def isAlphaU_def)
  then show ?thesis
    using parse_unterminated_double_quote [of "ascii ''A''" 6] by (simp add: assign_def)
qed

text \<open>
  Claim C10. For every input that consists of a key, \<^verbatim>\<open>=\<close> and two apostrophes, the
  single-quoted rule consumes the first apostrophe only, the second one is left at the
  cursor where no top-level rule matches, and \<^verbatim>\<open>parse\<close> throws the error of the lexer at
  that offset.
\<close>

theorem parse_empty_single_quotes:
  assumes "validKey K" and "length K + 3 \<le> d" and "6 \<le> d"
  shows "parse d (K @ [EQ] @ [SQ, SQ]) extractDescriptions =
    Inl (Unexpected [SQ] (length K + 2) [SQ])"
proof -
  let ?src = "K @ [EQ] @ [SQ, SQ]"
  from assms(2,3) obtain e where d: "d = Suc (Suc (Suc (Suc (Suc (Suc e)))))"
    and le: "length K + 2 \<le> Suc (Suc (Suc (Suc (Suc e))))"
    by (cases d; cases "d - 1"; cases "d - 2"; cases "d - 3"; cases "d - 4"; cases "d - 5") auto
  have src: "drop 0 ?src = K @ [EQ] @ [SQ, SQ]"
    by simp
  have "drop (Suc (0 + length K)) ?src = SQ # SQ # []"
    by simp
  note str = extract'_String_empty_quotes [OF this, of e]
  let ?tok = "Token [Sub (Token [Str K] (Some ''Key'')), Str [EQ],
      Sub (Token [Str [SQ]] (Some ''SingleQuotedString''))] (Some ''keyedEntry'')"
  let ?st' = "\<lparr>source = ?src, index = Suc (Suc (0 + length K))\<rparr>"
  note pass = lexTokens_entry_with [OF assms(1) src str le]
  have first: "lexLoop d ?src \<lparr>source = ?src, index = 0\<rparr> =
      (case lexLoop d ?src ?st' of (ws, e) \<Rightarrow> ([?tok] @ ws, e))"
    unfolding d by (rule lexLoop_next [OF _ pass]) simp_all
  have ws: "extract' d ''Whitespace'' ?st' = Inr (None, ?st')"
    using extract'_star_rx [OF TOKENS_simps(1), of "Suc (Suc (length K))" ?src d] assms(3)
    by (simp add: isWhiteSpace_def)
  have com: "extract' d ''Comment'' ?st' = Inr (None, ?st')"
    by (simp add: d extract'_Seq [OF TOKENS_simps(2)] Let_def substr_def)
  have key: "extract' d ''keyedEntry'' ?st' = Inr (None, ?st')"
    by (simp add: d extract'_Seq [OF TOKENS_simps(5)] extract'_Seq [OF TOKENS_simps(6)]
        extract'_class [OF TOKENS_simps(8)] TOKENS_simps charAt_def isAlphaU_def)
  have stuck: "lexTokens d MAIN_TOKENS ?st' = ([], None, ?st')"
    by (simp add: MAIN_TOKENS_def ws [simplified] com [simplified] key [simplified])
  have "lexLoop d ?src ?st' = ([], Some (Unexpected (charAt ?src (index ?st')) (index ?st')
      (case split NL (substr ?src (index ?st') 25) of [] \<Rightarrow> [] | line # _ \<Rightarrow> line)))"
    by (rule lexLoop_stuck [OF _ stuck]) simp_all
  with first have "lex d ?src = ([?tok], Some (Unexpected [SQ] (length K + 2) [SQ]))"
    by (simp add: lex_def charAt_def substr_def)
  then show ?thesis
    by (simp add: parse_def assemble_def at_def)
qed

theorem parse_empty_single_quotes_witness:
  "parse 6 (ascii ''A='' @ [SQ, SQ]) False = Inl (Unexpected [SQ] 3 [SQ])"
proof -
  have "validKey (ascii ''A'')"
    by (simp add: validKey_def isAlphaU_def)
  then show ?thesis
    using parse_empty_single_quotes [of "ascii ''A''" 6 False] by simp
qed

section \<open>The fallback of the string decoder\<close>

lemma extract'_EmptyString_shape:
  assumes "extract' d ''EmptyString'' st = Inr (Some v, st')"
  shows "v = Token [Str [DQ, DQ]] (Some ''EmptyString'')"
proof (cases d)
  case 0
  with assms show ?thesis by simp
next
  case (Suc e)
  with assms show ?thesis
    by (auto simp: extract'_Seq [OF TOKENS_simps(14)] Let_def split: if_splits)
qed

lemma extract'_quoted_shape:
  assumes tok: "TOKENS name = Some (Seq [Lit [q], Ref chars True False, Lit [q]])"
    and chars: "TOKENS chars = Some def"
    and res: "extract' d name st = Inr (Some v, st')"
  shows "v = Token [Str [q]] (Some name) \<or> (\<exists>t. v = Token [Str [q], Sub t, Str [q]] (Some name))"
proof (cases d)
  case 0
  with res show ?thesis by simp
next
  case (Suc e)
  with res show ?thesis
    by (auto simp: extract'_Seq [OF tok] chars Let_def
        split: if_splits sum.splits option.splits prod.splits)
qed

lemma extract'_String_shape:
  assumes "extract' d ''String'' st = Inr (Some v, st')"
  shows "tname v = Some ''UnquotedString''
    \<or> v = Token [Str [DQ, DQ]] (Some ''EmptyString'')
    \<or> v = Token [Str [DQ]] (Some ''QuotedString'')
    \<or> (\<exists>t. v = Token [Str [DQ], Sub t, Str [DQ]] (Some ''QuotedString''))
    \<or> v = Token [Str [SQ]] (Some ''SingleQuotedString'')
    \<or> (\<exists>t. v = Token [Str [SQ], Sub t, Str [SQ]] (Some ''SingleQuotedString''))"
proof (cases d)
  case 0
  with assms show ?thesis by simp
next
  case (Suc e)
  with assms have alt:
    "extractOr e [''UnquotedString'', ''EmptyString'', ''QuotedString'', ''SingleQuotedString'']
       st = Inr (Some v, st')"
    by (simp add: extract'_Or [OF TOKENS_simps(10)])
  then consider s where "extract' e ''UnquotedString'' s = Inr (Some v, st')"
    | s where "extract' e ''EmptyString'' s = Inr (Some v, st')"
    | s where "extract' e ''QuotedString'' s = Inr (Some v, st')"
    | s where "extract' e ''SingleQuotedString'' s = Inr (Some v, st')"
    by (auto split: sum.splits option.splits prod.splits)
  then show ?thesis
  proof cases
    case 1
    from extract'_Seq_name [OF this TOKENS_simps(11)] show ?thesis by simp
  next
    case 2
    from extract'_EmptyString_shape [OF this] show ?thesis by simp
  next
    case 3
    from extract'_quoted_shape [OF TOKENS_simps(15) TOKENS_simps(16) this] show ?thesis by blast
  next
    case 4
    from extract'_quoted_shape [OF TOKENS_simps(18) TOKENS_simps(19) this] show ?thesis by blast
  qed
qed

text \<open>
  Claim C3 says that no accepted input takes the decoder into its fallback. The input
  \<^verbatim>\<open>A=""\<close> is accepted, and its string capture is the one-element capture of the rule
  \<^verbatim>\<open>EmptyString\<close>, for which the decoder takes that branch.
\<close>

theorem decoder_fallback_reached_counterexample:
  "parse 4 (ascii ''A=\"\"'') False = Inr [(ascii ''A'', Plain [])]
   \<and> list_ex takesFallback (concat (map parseStringArgs (fst (lex 4 (ascii ''A=\"\"'')))))"
proof -
  have "lex 4 (ascii ''A=\"\"'') =
      ([Token [Sub (Token [Str (ascii ''A'')] (Some ''Key'')), Str [EQ],
               Sub (Token [Str [DQ, DQ]] (Some ''EmptyString''))] (Some ''keyedEntry'')], None)"
    by (simp add: eval_simps)
  then show ?thesis
    by (simp add: parse_def assemble_def at_def assign_def parseStringArgs_def)
qed

text \<open>
  Claim C3, amended. Of the captures the string rule returns, the decoder takes the
  fallback on exactly three: the capture \<^verbatim>\<open>""\<close> of \<^verbatim>\<open>EmptyString\<close>, and the captures of
  \<^verbatim>\<open>QuotedString\<close> and \<^verbatim>\<open>SingleQuotedString\<close> that hold the opening quote alone. Every other
  capture is unquoted or has the three elements opening quote, inner capture, closing
  quote.
\<close>

theorem decoder_fallback_captures:
  assumes "extract' d ''String'' st = Inr (Some val, st')"
  shows "takesFallback (JObject val) \<longleftrightarrow>
    val = Token [Str [DQ, DQ]] (Some ''EmptyString'')
    \<or> val = Token [Str [DQ]] (Some ''QuotedString'')
    \<or> val = Token [Str [SQ]] (Some ''SingleQuotedString'')"
  using extract'_String_shape [OF assms]
proof (elim disjE exE)
  assume "tname val = Some ''UnquotedString''"
  then show ?thesis by (cases val) auto
qed simp_all

theorem decoder_fallback_captures_witness:
  "takesFallback (JObject (Token [Str [DQ]] (Some ''QuotedString'')))"
proof -
  have "extract' 5 ''String'' \<lparr>source = ascii ''A=\"'', index = 2\<rparr> =
      Inr (Some (Token [Str [DQ]] (Some ''QuotedString'')), \<lparr>source = ascii ''A=\"'', index = 3\<rparr>)"
    by (simp add: eval_simps)
  from decoder_fallback_captures [OF this] show ?thesis
    by simp
qed

section \<open>Escapes in quoted values\<close>









section \<open>The quoting policy of the serializer\<close>

lemma hexDigit_printable: "0x20 \<le> hexDigit n"
proof -
  have "list_all (\<lambda>x. 0x20 \<le> x) (ascii ''0123456789abcdef'')"
    by simp
  then show ?thesis
    unfolding hexDigit_def list_all_length by simp
qed

lemma surrogate_printable:
  assumes "isLeadingSurrogate c \<or> isTrailingSurrogate c"
  shows "0x20 \<le> c"
  using assms order_trans [of "0x20" "0xD800" c] order_trans [of "0x20" "0xDC00" c]
  by (auto simp: isLeadingSurrogate_def isTrailingSurrogate_def)

lemma quoteChar_no_raw_control: "list_all (\<lambda>x. 0x20 \<le> x) (quoteChar c)"
  by (simp add: quoteChar_def unicodeEscape_def hexDigit_printable not_less)

lemma quoteJSONString_no_raw_control: "list_all (\<lambda>x. 0x20 \<le> x) (quoteJSONString v)"
proof (induction v rule: quoteJSONString.induct)
  case 1
  show ?case by simp
next
  case (2 c)
  show ?case by (simp add: quoteChar_no_raw_control)
next
  case (3 c c' cs)
  then show ?case
    by (simp add: quoteChar_no_raw_control surrogate_printable)
qed

lemma wellFormed_no_surrogate:
  "list_all (\<lambda>c. \<not> isLeadingSurrogate c \<and> \<not> isTrailingSurrogate c) v \<Longrightarrow> wellFormed v"
  by (induction v rule: wellFormed.induct) simp_all

lemma quoteJSONString_no_surrogate:
  assumes "list_all (\<lambda>c. \<not> isLeadingSurrogate c \<and> \<not> isTrailingSurrogate c) v"
  shows "quoteJSONString v = concat (map quoteChar v)"
proof -
  from assms have "map quoteUnit v = map quoteChar v"
    by (simp add: list_all_iff quoteUnit_def)
  with quoteJSONString_wellFormed [OF wellFormed_no_surrogate [OF assms]] show ?thesis
    by simp
qed

text \<open>
  Claim C8. Every entry is written as its key, \<^verbatim>\<open>=\<close> and its quoted value, after the
  comment lines if it has a description. A value with a line feed and without an
  apostrophe is written between apostrophes as it stands; every other value is written
  between double quotes by \<^verbatim>\<open>JSON.stringify\<close>: code unit by code unit when the string has no
  surrogate (and in a well-formed string, where the surrogates are copied), with a
  backslash before each double quote and backslash and a backslash escape for each
  control character and each surrogate without a partner, so that no control character
  is written raw.
\<close>

theorem serialize_quoting_policy:
  "serializeEntry (key, Plain v) = key @ [EQ] @ serializeString v
   \<and> (\<exists>comment. serializeEntry (key, Described desc v) = comment @ key @ [EQ] @ serializeString v)
   \<and> serializeString v =
       (if NL \<in> set v \<and> SQ \<notin> set v then [SQ] @ v @ [SQ]
        else [DQ] @ quoteJSONString v @ [DQ])
   \<and> (list_all (\<lambda>c. \<not> isLeadingSurrogate c \<and> \<not> isTrailingSurrogate c) v \<longrightarrow>
        quoteJSONString v = concat (map quoteChar v))
   \<and> (wellFormed v \<longrightarrow> quoteJSONString v = concat (map quoteUnit v))
   \<and> quoteChar DQ = [BSL, DQ] \<and> quoteChar BSL = [BSL, BSL]
   \<and> (if c < 0x20 then hd (quoteChar c) = BSL \<and> 2 \<le> length (quoteChar c)
       else if c = DQ \<or> c = BSL then quoteChar c = [BSL, c]
       else if isLeadingSurrogate c \<or> isTrailingSurrogate c then quoteChar c = unicodeEscape c
       else quoteChar c = [c])
   \<and> hd (unicodeEscape c) = BSL
   \<and> list_all (\<lambda>x. 0x20 \<le> x) (quoteJSONString v)"
proof -
  have "if c < 0x20 then hd (quoteChar c) = BSL \<and> 2 \<le> length (quoteChar c)
      else if c = DQ \<or> c = BSL then quoteChar c = [BSL, c]
      else if isLeadingSurrogate c \<or> isTrailingSurrogate c then quoteChar c = unicodeEscape c
      else quoteChar c = [c]"
    by (auto simp: quoteChar_def unicodeEscape_def)
  moreover have "quoteChar DQ = [BSL, DQ]" "quoteChar BSL = [BSL, BSL]"
    by (simp_all add: quoteChar_def)
  moreover have "hd (unicodeEscape c) = BSL"
    by (simp add: unicodeEscape_def)
  moreover have "serializeEntry (key, Plain v) = key @ [EQ] @ serializeString v"
    by (simp add: serializeEntry_def)
  moreover have
    "\<exists>comment. serializeEntry (key, Described desc v) = comment @ key @ [EQ] @ serializeString v"
    by (simp add: serializeEntry_def)
  moreover have "serializeString v =
      (if NL \<in> set v \<and> SQ \<notin> set v then [SQ] @ v @ [SQ] else [DQ] @ quoteJSONString v @ [DQ])"
    by (simp add: serializeString_def JSON_stringify_def)
  ultimately show ?thesis
    using quoteJSONString_no_raw_control [of v] quoteJSONString_no_surrogate [of v]
      quoteJSONString_wellFormed [of v]
    by simp
qed

theorem serialize_quoting_policy_witness:
  "serialize [(ascii ''A'', Plain (ascii ''x'' @ [NL] @ ascii ''y'')),
              (ascii ''B'', Plain (ascii ''it's'' @ [NL])),
              (ascii ''C'', Plain (ascii ''say \"hi\"''))] =
     ascii ''A='x'' @ [NL] @ ascii ''y'' @ [SQ] @ [NL] @ ascii ''B=\"it's'' @ [BSL]
     @ ascii ''n\"'' @ [NL] @ ascii ''C=\"say '' @ [BSL] @ ascii ''\"hi'' @ [BSL] @ ascii ''\"\"''"
  using serialize_quoting_policy [of "ascii ''A''" "ascii ''x'' @ [NL] @ ascii ''y''" None NL]
    serialize_quoting_policy [of "ascii ''B''" "ascii ''it's'' @ [NL]" None NL]
    serialize_quoting_policy [of "ascii ''C''" "ascii ''say \"hi\"''" None NL]
  by (simp add: serialize_def quote_simps)

section \<open>A comment without text\<close>

lemma lex_bare_comment: "3 \<le> d \<Longrightarrow> lex d [HASH] = ([Token [Str [HASH]] (Some ''Comment'')], None)"
proof -
  assume d: "3 \<le> d"
  have "lex 3 [HASH] = ([Token [Str [HASH]] (Some ''Comment'')], None)"
    by (simp add: eval_simps)
  with lex_deeper [of 3 "[HASH]" d] d show ?thesis
    by simp
qed

lemma lex_comment_lines:
  "12 \<le> d \<Longrightarrow>
   lex d (ascii ''# line one'' @ [NL] @ ascii ''# line two'' @ [NL] @ ascii ''A=x'') =
     ([Token [Str [HASH], Sub (Token [Str (ascii '' line one'')] (Some ''CommentChars''))] (Some ''Comment''),
       Token [Str [NL]] (Some ''Whitespace''),
       Token [Str [HASH], Sub (Token [Str (ascii '' line two'')] (Some ''CommentChars''))] (Some ''Comment''),
       Token [Str [NL]] (Some ''Whitespace''),
       Token [Sub (Token [Str (ascii ''A'')] (Some ''Key'')), Str [EQ],
              Sub (Token [Str (ascii ''x'')] (Some ''UnquotedString''))] (Some ''keyedEntry'')], None)"
proof -
  assume d: "12 \<le> d"
  let ?src = "ascii ''# line one'' @ [NL] @ ascii ''# line two'' @ [NL] @ ascii ''A=x''"
  have "lex 12 ?src =
     ([Token [Str [HASH], Sub (Token [Str (ascii '' line one'')] (Some ''CommentChars''))] (Some ''Comment''),
       Token [Str [NL]] (Some ''Whitespace''),
       Token [Str [HASH], Sub (Token [Str (ascii '' line two'')] (Some ''CommentChars''))] (Some ''Comment''),
       Token [Str [NL]] (Some ''Whitespace''),
       Token [Sub (Token [Str (ascii ''A'')] (Some ''Key'')), Str [EQ],
              Sub (Token [Str (ascii ''x'')] (Some ''UnquotedString''))] (Some ''keyedEntry'')], None)"
    by (simp add: eval_simps)
  with lex_deeper [of 12 ?src d] d show ?thesis
    by simp
qed

lemma lex_bare_comment_entry:
  "5 \<le> d \<Longrightarrow>
   lex d ([HASH] @ [NL] @ ascii ''A=x'') =
     ([Token [Str [HASH]] (Some ''Comment''),
       Token [Str [NL]] (Some ''Whitespace''),
       Token [Sub (Token [Str (ascii ''A'')] (Some ''Key'')), Str [EQ],
              Sub (Token [Str (ascii ''x'')] (Some ''UnquotedString''))] (Some ''keyedEntry'')], None)"
proof -
  assume d: "5 \<le> d"
  let ?src = "[HASH] @ [NL] @ ascii ''A=x''"
  have "lex 5 ?src =
     ([Token [Str [HASH]] (Some ''Comment''),
       Token [Str [NL]] (Some ''Whitespace''),
       Token [Sub (Token [Str (ascii ''A'')] (Some ''Key'')), Str [EQ],
              Sub (Token [Str (ascii ''x'')] (Some ''UnquotedString''))] (Some ''keyedEntry'')], None)"
    by (simp add: eval_simps)
  with lex_deeper [of 5 ?src d] d show ?thesis
    by simp
qed

text \<open>
  Claim C4 says that a comment line that is \<^verbatim>\<open>#\<close> alone counts as an empty description
  line. The grammar accepts such a line, but its capture has one element, and the loop
  body reads \<^verbatim>\<open>entry.value[1].value\<close> of it: \<^verbatim>\<open>parse\<close> throws a \<^verbatim>\<open>TypeError\<close>. Comment lines
  with text are trimmed and joined by line feeds as the claim says.
\<close>

theorem parse_bare_comment:
  "12 \<le> d \<Longrightarrow>
     parse d (ascii ''#'') extractDescriptions = Inl TypeError
     \<and> parse d (ascii ''#'' @ [NL] @ ascii ''A=x'') extractDescriptions = Inl TypeError
     \<and> parse d (ascii ''# line one'' @ [NL] @ ascii ''# line two'' @ [NL] @ ascii ''A=x'') True =
         Inr [(ascii ''A'',
               Described (Some (ascii ''line one'' @ [NL] @ ascii ''line two'')) (ascii ''x''))]"
proof -
  assume d: "12 \<le> d"
  have trimmed: "trim (ascii '' line one'') = ascii ''line one''"
    "trim (ascii '' line two'') = ascii ''line two''"
    by (simp_all add: trim_def isWhiteSpace_def)
  have key: "ascii ''A'' \<noteq> ascii ''__proto__''"
    by simp
  from d trimmed key show ?thesis
    by (simp add: parse_def lex_bare_comment lex_bare_comment_entry [simplified]
        lex_comment_lines [simplified] assemble_def at_def assign_def)
qed

theorem parse_bare_comment_witness:
  "parse 12 (ascii ''#'') True = Inl TypeError
   \<and> parse 12 (ascii ''#'' @ [NL] @ ascii ''A=x'') True = Inl TypeError"
  using parse_bare_comment [of 12 True] by simp

section \<open>The call stack a source needs\<close>

text \<open>
  Every rule of the table respects the ranks, a rule that succeeds moves the cursor
  forward and not past the end of the source, so a call stack of four frames more than
  the source has characters is never exhausted: from that depth on, the result of
  \<^verbatim>\<open>parse\<close> does not depend on the depth.
\<close>

lemma TOKENS_ok:
  assumes "TOKENS name = Some tdef"
  shows "okDef name tdef \<and> 0 < rank name"
proof -
  from assms have "(name, tdef) \<in> set
    [(''Whitespace'', Seq [Rx isWhiteSpace, Ref ''Whitespace'' True True]),
     (''Comment'', Seq [Lit [HASH], Ref ''CommentChars'' True False]),
     (''CommentChars'',
        Seq [Ref ''CommentChar'' False True, Ref ''CommentChars'' True True]),
     (''CommentChar'', Seq [Rx (\<lambda>c. c \<noteq> NL)]),
     (''keyedEntry'', Seq [Ref ''Key'' False False, Lit [EQ], Ref ''String'' True False]),
     (''Key'', Seq [Ref ''AlphaUChar'' False True, Ref ''AlphaNumUChars'' True True]),
     (''AlphaNumUChars'',
        Seq [Ref ''AlphaNumUChar'' False True, Ref ''AlphaNumUChars'' True True]),
     (''AlphaUChar'', Seq [Rx isAlphaU]),
     (''AlphaNumUChar'', Seq [Rx isAlphaNumU]),
     (''String'',
        Or [''UnquotedString'', ''EmptyString'', ''QuotedString'', ''SingleQuotedString'']),
     (''UnquotedString'',
        Seq [Ref ''SafeChar'' False True, Ref ''UnquotedStringChars'' True True]),
     (''SafeChar'', Seq [Rx (\<lambda>c. c \<noteq> NL \<and> c \<noteq> DQ \<and> c \<noteq> SQ)]),
     (''UnquotedStringChars'',
        Seq [Rx (\<lambda>c. c \<noteq> BSL \<and> c \<noteq> NL), Ref ''UnquotedStringChars'' True True]),
     (''EmptyString'', Seq [Lit [DQ, DQ]]),
     (''QuotedString'', Seq [Lit [DQ], Ref ''QuotedStringChars'' True False, Lit [DQ]]),
     (''QuotedStringChars'',
        Seq [Ref ''QuotedStringChar'' False True, Ref ''QuotedStringChars'' True True]),
     (''QuotedStringChar'', Or [''UnescapedQuotedStringChar'', ''EscapedChars'']),
     (''SingleQuotedString'',
        Seq [Lit [SQ], Ref ''SingleQuotedStringChars'' True False, Lit [SQ]]),
     (''SingleQuotedStringChars'',
        Seq [Ref ''SingleQuotedStringChar'' False True,
             Ref ''SingleQuotedStringChars'' True True]),
     (''SingleQuotedStringChar'', Or [''UnescapedSingleQuotedStringChar'']),
     (''UnescapedQuotedStringChar'', Seq [Rx (\<lambda>c. c \<noteq> BSL \<and> c \<noteq> DQ)]),
     (''UnescapedSingleQuotedStringChar'', Seq [Rx (\<lambda>c. c \<noteq> SQ)]),
     (''EscapedChars'', Replaced replacer [Lit [BSL], Rx isEscapeLetter])]"
    unfolding TOKENS_def by (rule map_of_SomeD)
  then show ?thesis
    unfolding set_simps insert_iff empty_iff
    by (elim disjE) (simp_all add: rank_def TOKENS_simps)
qed

lemma okFirst_consuming: "okFirst name p \<Longrightarrow> consuming p"
  by (cases p) simp_all

lemma okParts_consuming: "okParts name parts \<Longrightarrow> parts \<noteq> [] \<and> consuming (hd parts)"
  by (cases parts) (auto intro: okFirst_consuming)

lemma extract'_progress:
  "extract' d name st = Inr (Some v, st') \<Longrightarrow> index st \<le> length (source st)
     \<Longrightarrow> index st < index st' \<and> index st' \<le> length (source st)"
  "extractOr d alts st = Inr (Some v, st') \<Longrightarrow> index st \<le> length (source st)
     \<Longrightarrow> index st < index st' \<and> index st' \<le> length (source st)"
  "extractParts d parts src i ev = Inr (Some (j, ev')) \<Longrightarrow> i \<le> length src
     \<Longrightarrow> i \<le> j \<and> j \<le> length src \<and> (parts \<noteq> [] \<and> consuming (hd parts) \<longrightarrow> i < j)"
proof (induction d name st and d alts st and d parts src i ev
    arbitrary: v st' and v st' and j ev' rule: extract'_extractOr_extractParts.induct)
  case (1 name st)
  then show ?case by simp
next
  case (2 d name st)
  from "2.prems"(1) obtain tdef where tdef: "TOKENS name = Some tdef"
    by (cases "TOKENS name") (simp_all add: extract'.simps(2))
  from TOKENS_ok [OF tdef] have ok: "okDef name tdef" by simp
  show ?case
  proof (cases tdef)
    case (Or alts)
    with tdef "2.prems" have "extractOr d alts st = Inr (Some v, st')"
      by (simp add: extract'_Or)
    from "2.IH"(1) [OF tdef Or this "2.prems"(2)] show ?thesis .
  next
    case (Seq parts)
    with tdef "2.prems"(1) obtain j ev where
      p: "extractParts d parts (source st) (index st) [] = Inr (Some (j, ev))"
      and st': "index st' = j"
      by (auto simp: extract'_Seq split: sum.splits option.splits)
    from ok Seq have "parts \<noteq> [] \<and> consuming (hd parts)"
      by (simp add: okParts_consuming)
    with "2.IH"(2) [OF tdef Seq p "2.prems"(2)] st' show ?thesis by simp
  next
    case (Replaced rep parts)
    with tdef "2.prems"(1) obtain j ev where
      p: "extractParts d parts (source st) (index st) [] = Inr (Some (j, ev))"
      and st': "index st' = j"
      by (auto simp: extract'_Replaced split: sum.splits option.splits)
    from ok Replaced have "parts \<noteq> [] \<and> consuming (hd parts)"
      by (simp add: okParts_consuming)
    with "2.IH"(3) [OF tdef Replaced p "2.prems"(2)] st' show ?thesis by simp
  qed
next
  case (3 d st)
  then show ?case by simp
next
  case (4 d orToken rest st)
  show ?case
  proof (cases "extract' d orToken st")
    case (Inl e)
    with "4.prems"(1) show ?thesis by simp
  next
    case (Inr p)
    obtain r st1 where p: "(r, st1) = p" by (cases p) auto
    show ?thesis
    proof (cases r)
      case None
      from Inr p None have "extract' d orToken st = Inr (None, st1)" by auto
      then have same: "st1 = st" by (rule extract'_null_frame(1))
      from "4.prems"(1) Inr p None have "extractOr d rest st1 = Inr (Some v, st')"
        by auto
      from "4.IH"(2) [OF Inr p None this] "4.prems"(2) same show ?thesis by simp
    next
      case (Some w)
      with "4.prems"(1) Inr p have "extract' d orToken st = Inr (Some v, st')"
        by auto
      from "4.IH"(1) [OF this "4.prems"(2)] show ?thesis .
    qed
  qed
next
  case (5 d src currentIndex extractedValue)
  then show ?case by simp
next
  case (6 d tokenPart rest src currentIndex extractedValue)
  let ?tok = "substr src currentIndex (length tokenPart)"
  from "6.prems"(1) have eq: "tokenPart = ?tok"
    and more: "extractParts d rest src (currentIndex + length ?tok)
      (extractedValue @ [Str ?tok]) = Inr (Some (j, ev'))"
    by (auto simp: Let_def split: if_splits)
  have "currentIndex + length ?tok \<le> length src"
    using "6.prems"(2) by (simp add: substr_def)
  from "6.IH" [OF refl _ more this] eq have "currentIndex + length ?tok \<le> j \<and> j \<le> length src"
    by simp
  moreover from eq have "length ?tok = length tokenPart" by simp
  ultimately show ?case by (cases tokenPart) auto
next
  case (7 d tokenPart rest src currentIndex extractedValue)
  let ?char = "charAt src currentIndex"
  from "7.prems"(1) have t: "test tokenPart ?char"
    and more: "extractParts d rest src (currentIndex + 1) (extractedValue @ [Str ?char]) =
      Inr (Some (j, ev'))"
    by (auto simp: Let_def split: if_splits)
  from t have "currentIndex < length src"
    by (cases "currentIndex < length src") (simp_all add: charAt_def)
  then have "currentIndex + 1 \<le> length src" by simp
  from "7.IH" [OF refl _ more this] t show ?case by simp
next
  case (8 d type optional flatten rest src currentIndex extractedValue)
  from "8.prems"(1) obtain sub where sub: "TOKENS type = Some sub"
    by (cases "TOKENS type") simp_all
  show ?case
  proof (cases "extract' d type \<lparr>source = src, index = currentIndex\<rparr>")
    case (Inl e)
    with "8.prems"(1) sub show ?thesis by simp
  next
    case (Inr p)
    obtain r st1 where p: "(r, st1) = p" by (cases p) auto
    show ?thesis
    proof (cases r)
      case None
      with "8.prems"(1) sub Inr p have "optional" and "j = currentIndex"
        by (auto split: if_splits)
      with "8.prems"(2) show ?thesis by simp
    next
      case (Some w)
      from Inr p Some have
        "extract' d type \<lparr>source = src, index = currentIndex\<rparr> = Inr (Some w, st1)"
        by auto
      from "8.IH"(1) [OF sub this] "8.prems"(2)
      have step: "currentIndex < index st1" "index st1 \<le> length src"
        by simp_all
      from "8.prems"(1) sub Inr p Some have
        "extractParts d rest src (index st1)
           (if flatten then extractedValue @ tvalue w else extractedValue @ [Sub w]) =
         Inr (Some (j, ev'))"
        by auto
      from "8.IH"(2) [OF sub Inr p Some this step(2)] step show ?thesis by simp
    qed
  qed
qed

lemma deepEnough_later:
  "deepEnough d src i part \<Longrightarrow> i \<le> j \<Longrightarrow> deepEnough d src j part"
  by (cases part) auto

lemma okLater_deepEnough:
  assumes "okLater name part" and "rank name + (length src - i) \<le> Suc d"
    and "i < j" and "j \<le> length src"
  shows "deepEnough d src j part"
  using assms by (cases part) auto

lemma extractParts_deep:
  assumes calls: "\<And>name st. TOKENS name \<noteq> None \<Longrightarrow> index st \<le> length (source st)
      \<Longrightarrow> rank name + (length (source st) - index st) \<le> d
      \<Longrightarrow> extract' d name st \<noteq> Inl RangeError"
  shows "i \<le> length src \<Longrightarrow> list_all (deepEnough d src i) parts
    \<Longrightarrow> extractParts d parts src i ev \<noteq> Inl RangeError"
proof (induction parts arbitrary: i ev)
  case Nil
  then show ?case by simp
next
  case (Cons part parts)
  from Cons.prems(2) have part: "deepEnough d src i part"
    and parts: "list_all (deepEnough d src i) parts"
    by simp_all
  have later: "list_all (deepEnough d src j) parts" if "i \<le> j" for j
    using parts that by (auto simp: list_all_iff intro: deepEnough_later)
  show ?case
  proof (cases part)
    case (Lit s)
    show ?thesis
    proof (cases "s = substr src i (length s)")
      case False
      with Lit show ?thesis by (simp add: Let_def)
    next
      case True
      then have "length s = length (substr src i (length s))"
        by simp
      also have "\<dots> \<le> length src - i"
        by (simp add: substr_def)
      finally have "i + length s \<le> length src"
        using Cons.prems(1) by simp
      from Cons.IH [OF this later] Lit True [symmetric] show ?thesis
        by (simp add: Let_def)
    qed
  next
    case (Rx p)
    show ?thesis
    proof (cases "test p (charAt src i)")
      case False
      with Rx show ?thesis by (simp add: Let_def)
    next
      case True
      then have "i < length src"
        by (cases "i < length src") (simp_all add: charAt_def)
      then have "i + 1 \<le> length src" by simp
      from Cons.IH [OF this later] Rx show ?thesis
        by (simp add: Let_def)
    qed
  next
    case (Ref t optional flatten)
    with part obtain sub where sub: "TOKENS t = Some sub"
      and deep: "rank t + (length src - i) \<le> d"
      by auto
    from sub deep Cons.prems(1)
    have call: "extract' d t \<lparr>source = src, index = i\<rparr> \<noteq> Inl RangeError"
      by (intro calls) simp_all
    show ?thesis
    proof (cases "extract' d t \<lparr>source = src, index = i\<rparr>")
      case (Inl e)
      with call Ref sub show ?thesis by simp
    next
      case (Inr p)
      obtain r st1 where p: "p = (r, st1)" by (cases p)
      show ?thesis
      proof (cases r)
        case None
        with Inr p Ref sub show ?thesis by simp
      next
        case (Some w)
        from extract'_progress(1) [of d t "\<lparr>source = src, index = i\<rparr>" w st1] Inr p Some
          Cons.prems(1)
        have "i \<le> index st1" "index st1 \<le> length src"
          by simp_all
        from Cons.IH [OF this(2) later [OF this(1)]] Inr p Some Ref sub show ?thesis
          by simp
      qed
    qed
  qed
qed

lemma extractParts_deep_first:
  assumes calls: "\<And>name st. TOKENS name \<noteq> None \<Longrightarrow> index st \<le> length (source st)
      \<Longrightarrow> rank name + (length (source st) - index st) \<le> d
      \<Longrightarrow> extract' d name st \<noteq> Inl RangeError"
    and ok: "okParts name parts"
    and deep: "rank name + (length src - i) \<le> Suc d"
    and i: "i \<le> length src"
  shows "extractParts d parts src i ev \<noteq> Inl RangeError"
proof -
  from ok obtain part rest where parts: "parts = part # rest"
    and first: "okFirst name part" and rest: "list_all (okLater name) rest"
    by (cases parts) auto
  have later: "list_all (deepEnough d src j) rest" if "i < j" "j \<le> length src" for j
    unfolding list_all_iff
  proof
    fix part'
    assume "part' \<in> set rest"
    with rest have "okLater name part'"
      by (simp add: list_all_iff)
    from okLater_deepEnough [OF this deep that] show "deepEnough d src j part'" .
  qed
  have tail: "extractParts d ps src j ev' \<noteq> Inl RangeError"
    if "j \<le> length src" "list_all (deepEnough d src j) ps" for ps j ev'
  proof (rule extractParts_deep)
    show "extract' d name' st \<noteq> Inl RangeError"
      if "TOKENS name' \<noteq> None" "index st \<le> length (source st)"
        "rank name' + (length (source st) - index st) \<le> d" for name' st
      using that by (rule calls)
  qed (fact that)+
  show ?thesis
  proof (cases part)
    case (Lit s)
    show ?thesis
    proof (cases "s = substr src i (length s)")
      case False
      with parts Lit show ?thesis by (simp add: Let_def)
    next
      case True
      then have "length s = length (substr src i (length s))"
        by simp
      also have "\<dots> \<le> length src - i"
        by (simp add: substr_def)
      finally have "i + length s \<le> length src"
        using i by simp
      moreover from first Lit have "i < i + length s"
        by simp
      ultimately show ?thesis
        using tail [OF _ later] parts Lit True [symmetric] by (simp add: Let_def)
    qed
  next
    case (Rx p)
    show ?thesis
    proof (cases "test p (charAt src i)")
      case False
      with parts Rx show ?thesis by (simp add: Let_def)
    next
      case True
      then have "i < length src"
        by (cases "i < length src") (simp_all add: charAt_def)
      then have "i < i + 1" "i + 1 \<le> length src" by simp_all
      then show ?thesis
        using tail [OF _ later] parts Rx True by (simp add: Let_def)
    qed
  next
    case (Ref t optional flatten)
    with first obtain sub where sub: "TOKENS t = Some sub"
      and less: "rank t < rank name" and must: "\<not> optional"
      by auto
    from less deep have "rank t + (length src - i) \<le> d"
      by simp
    with sub i have call: "extract' d t \<lparr>source = src, index = i\<rparr> \<noteq> Inl RangeError"
      by (intro calls) simp_all
    show ?thesis
    proof (cases "extract' d t \<lparr>source = src, index = i\<rparr>")
      case (Inl e)
      with call parts Ref sub show ?thesis by simp
    next
      case (Inr p)
      obtain r st1 where p: "p = (r, st1)" by (cases p)
      show ?thesis
      proof (cases r)
        case None
        with Inr p parts Ref sub show ?thesis by simp
      next
        case (Some w)
        from extract'_progress(1) [of d t "\<lparr>source = src, index = i\<rparr>" w st1] Inr p Some i
        have "i < index st1" "index st1 \<le> length src"
          by simp_all
        then show ?thesis
          using tail [OF _ later] Inr p Some parts Ref sub by simp
      qed
    qed
  qed
qed

lemma extract'_source:
  "extract' d name st = Inr (r, st') \<Longrightarrow> source st' = source st"
  "extractOr d alts st = Inr (r, st') \<Longrightarrow> source st' = source st"
  "extractParts d parts src i ev = extractParts d parts src i ev"
proof (induction d name st and d alts st and d parts src i ev
    arbitrary: r st' and r st' rule: extract'_extractOr_extractParts.induct)
  case (1 name st)
  then show ?case by simp
next
  case (2 d name st)
  show ?case
  proof (cases "TOKENS name")
    case None
    with 2(4) show ?thesis by (simp add: extract'.simps(2))
  next
    case (Some tdef)
    show ?thesis
    proof (cases tdef)
      case (Or alts)
      with Some 2(4) have "extractOr d alts st = Inr (r, st')"
        by (simp add: extract'.simps(2))
      with Some Or show ?thesis by (rule 2(1))
    next
      case (Seq ps)
      with Some 2(4) show ?thesis
        by (auto simp: extract'.simps(2) split: sum.splits option.splits)
    next
      case (Replaced rep ps)
      with Some 2(4) show ?thesis
        by (auto simp: extract'.simps(2) split: sum.splits option.splits)
    qed
  qed
next
  case (3 d st)
  then show ?case by simp
next
  case (4 d orToken rest st)
  show ?case
  proof (cases "extract' d orToken st")
    case (Inl e)
    with 4(3) show ?thesis by simp
  next
    case (Inr p)
    obtain r1 st1 where p: "p = (r1, st1)" by (cases p)
    from 4(1) [of r1 st1] Inr p have src1: "source st1 = source st"
      by simp
    show ?thesis
    proof (cases r1)
      case None
      with Inr p 4(3) have "extractOr d rest st1 = Inr (r, st')"
        by simp
      from 4(2) [OF Inr p [symmetric] None this] src1 show ?thesis
        by simp
    next
      case (Some v)
      with Inr p 4(3) src1 show ?thesis by auto
    qed
  qed
qed simp_all

lemma extractOr_deep:
  "(\<And>a. a \<in> set alts \<Longrightarrow> extract' d a st \<noteq> Inl RangeError)
    \<Longrightarrow> extractOr d alts st \<noteq> Inl RangeError"
proof (induction alts)
  case Nil
  then show ?case by simp
next
  case (Cons a alts)
  from Cons.prems have call: "extract' d a st \<noteq> Inl RangeError"
    by simp
  from Cons have rest: "extractOr d alts st \<noteq> Inl RangeError"
    by simp
  show ?case
  proof (cases "extract' d a st")
    case (Inl e)
    with call show ?thesis by simp
  next
    case (Inr p)
    obtain r st' where p: "p = (r, st')" by (cases p)
    show ?thesis
    proof (cases r)
      case None
      with Inr p have "st' = st"
        by (auto dest: extract'_null_frame(1))
      with Inr p None rest show ?thesis by simp
    next
      case (Some v)
      with Inr p show ?thesis by simp
    qed
  qed
qed

lemma extract'_deep:
  "TOKENS name \<noteq> None \<Longrightarrow> index st \<le> length (source st)
    \<Longrightarrow> rank name + (length (source st) - index st) \<le> d
    \<Longrightarrow> extract' d name st \<noteq> Inl RangeError"
proof (induction d arbitrary: name st)
  case 0
  then obtain tdef where "TOKENS name = Some tdef" by auto
  from TOKENS_ok [OF this] 0 show ?case by simp
next
  case (Suc d)
  from Suc.prems(1) obtain tdef where tdef: "TOKENS name = Some tdef" by auto
  from TOKENS_ok [OF this] have ok: "okDef name tdef" ..
  have parts: "extractParts d parts (source st) (index st) [] \<noteq> Inl RangeError"
    if "okParts name parts" for parts
  proof (rule extractParts_deep_first [where name = name])
    show "extract' d name' st' \<noteq> Inl RangeError"
      if "TOKENS name' \<noteq> None" "index st' \<le> length (source st')"
        "rank name' + (length (source st') - index st') \<le> d" for name' st'
      using that by (rule Suc.IH)
  qed (fact that Suc.prems)+
  show ?case
  proof (cases tdef)
    case (Or alts)
    have "extractOr d alts st \<noteq> Inl RangeError"
    proof (rule extractOr_deep)
      fix a
      assume "a \<in> set alts"
      with ok Or have "TOKENS a \<noteq> None" "rank a < rank name"
        by (simp_all add: list_all_iff)
      with Suc.prems show "extract' d a st \<noteq> Inl RangeError"
        by (intro Suc.IH) simp_all
    qed
    with tdef Or show ?thesis
      by (simp add: extract'.simps(2))
  next
    case (Seq ps)
    with ok parts [of ps] tdef show ?thesis
      by (auto simp: extract'.simps(2) split: sum.splits option.splits)
  next
    case (Replaced rep ps)
    with ok parts [of ps] tdef show ?thesis
      by (auto simp: extract'.simps(2) split: sum.splits option.splits)
  qed
qed

lemma rank_MAIN_TOKENS:
  "t \<in> set MAIN_TOKENS \<Longrightarrow> TOKENS t \<noteq> None \<and> rank t \<le> 4"
  by (auto simp: MAIN_TOKENS_def rank_def TOKENS_simps)

lemma lexTokens_deep:
  assumes "set ts \<subseteq> set MAIN_TOKENS" and "source st = src" and "index st \<le> length src"
    and "length src - index st + 4 \<le> d"
    and "lexTokens d ts st = (vs, e, st')"
  shows "e \<noteq> Some RangeError \<and> source st' = src \<and> index st' \<le> length src"
  using assms
proof (induction ts arbitrary: st vs e st')
  case Nil
  then show ?case by auto
next
  case (Cons t ts)
  from Cons.prems(1) rank_MAIN_TOKENS [of t]
  have t: "TOKENS t \<noteq> None" "rank t \<le> 4" and ts: "set ts \<subseteq> set MAIN_TOKENS"
    by simp_all
  from t Cons.prems(2-4) have call: "extract' d t st \<noteq> Inl RangeError"
    by (intro extract'_deep) simp_all
  show ?case
  proof (cases "extract' d t st")
    case (Inl err)
    with call Cons.prems show ?thesis by auto
  next
    case (Inr p)
    obtain r st1 where p: "p = (r, st1)" by (cases p)
    from Inr p have src1: "source st1 = src"
      using extract'_source(1) [of d t st r st1] Cons.prems(2) by simp
    from Inr p have le: "index st \<le> index st1"
      using extract'_index_le(1) [of d t st r st1] by simp
    have len: "index st1 \<le> length src"
    proof (cases r)
      case None
      with Inr p have "st1 = st" by (auto dest: extract'_null_frame(1))
      with Cons.prems(3) show ?thesis by simp
    next
      case (Some v)
      with Inr p extract'_progress(1) [of d t st v st1] Cons.prems(2,3) show ?thesis
        by simp
    qed
    from le Cons.prems(4) have deep: "length src - index st1 + 4 \<le> d"
      by simp
    obtain vs1 e1 st2 where rest: "lexTokens d ts st1 = (vs1, e1, st2)"
      by (cases "lexTokens d ts st1") auto
    from Cons.IH [OF ts src1 len deep rest]
    have "e1 \<noteq> Some RangeError \<and> source st2 = src \<and> index st2 \<le> length src" .
    with Inr p rest Cons.prems(5) show ?thesis
      by (cases r) auto
  qed
qed

lemma lexLoop_deep:
  "source st = src \<Longrightarrow> index st \<le> length src \<Longrightarrow> length src - index st + 4 \<le> d
    \<Longrightarrow> snd (lexLoop d src st) \<noteq> Some RangeError"
proof (induction "length src - index st" arbitrary: st rule: less_induct)
  case less
  show ?case
  proof (cases "index st < length src")
    case False
    then show ?thesis by (simp add: lexLoop_end)
  next
    case True
    obtain vs e st' where pass: "lexTokens d MAIN_TOKENS st = (vs, e, st')"
      by (cases "lexTokens d MAIN_TOKENS st") auto
    from lexTokens_deep [OF _ less.prems pass]
    have e: "e \<noteq> Some RangeError" and src': "source st' = src"
      and len': "index st' \<le> length src"
      by simp_all
    from lexTokens_index_le [OF pass] have le: "index st \<le> index st'" .
    show ?thesis
    proof (cases e)
      case (Some err)
      with True pass e show ?thesis
        by (subst lexLoop.simps) simp
    next
      case None
      show ?thesis
      proof (cases "index st = index st'")
        case same: True
        with True pass None show ?thesis
          by (subst lexLoop.simps) (simp add: Let_def)
      next
        case False
        with le have lt: "index st < index st'" by simp
        with True len' have "length src - index st' < length src - index st"
          by simp
        moreover from lt less.prems(3) have "length src - index st' + 4 \<le> d"
          by simp
        ultimately have "snd (lexLoop d src st') \<noteq> Some RangeError"
          using src' len' by (intro less.hyps) simp_all
        with True pass None False show ?thesis
          by (subst lexLoop.simps) (auto simp: Let_def split: prod.splits)
      qed
    qed
  qed
qed

lemma lex_deep: "length src + 4 \<le> d \<Longrightarrow> snd (lex d src) \<noteq> Some RangeError"
  unfolding lex_def by (rule lexLoop_deep) simp_all

lemma lex_depth_irrelevant:
  assumes "length src + 4 \<le> d" and "length src + 4 \<le> d'"
  shows "lex d' src = lex d src"
proof -
  have *: "lex b src = lex a src" if "length src + 4 \<le> a" "a \<le> b" for a b
    using lex_deeper [of a src b] lex_deep [of src a] that by simp
  from * [of "length src + 4" d] * [of "length src + 4" d'] assms show ?thesis
    by simp
qed

lemma valueAt_not_RangeError: "valueAt x i \<noteq> Inl RangeError"
  by (cases x) simp_all

lemma trimOf_not_RangeError: "trimOf x \<noteq> Inl RangeError"
  by (cases x) simp_all

lemma asString_not_RangeError: "asString x \<noteq> Inl RangeError"
  by (cases x) simp_all

lemma parseString_not_RangeError: "parseString x \<noteq> Inl RangeError"
  by (cases x) (simp_all add: valueAt_not_RangeError)

lemma assemble_not_RangeError: "assemble xd acc t \<noteq> Inl RangeError"
proof
  assume thrown: "assemble xd acc t = Inl RangeError"
  obtain m lastDescription where acc: "acc = (m, lastDescription)"
    by (cases acc)
  from thrown acc valueAt_not_RangeError [of "at (tvalue t) 1" 0]
    valueAt_not_RangeError [of "at (tvalue t) 0" 0]
    parseString_not_RangeError [of "at (tvalue t) 2"]
  show False
    by (auto simp: assemble_def trimOf_not_RangeError asString_not_RangeError
        split: if_splits sum.splits)
qed

lemma assembleAll_not_RangeError: "assembleAll xd acc ts \<noteq> Inl RangeError"
proof (induction ts arbitrary: acc)
  case Nil
  show ?case by simp
next
  case (Cons t ts)
  from assemble_not_RangeError [of xd acc t] Cons show ?case
    by (cases "assemble xd acc t") simp_all
qed

lemma parse_deep: "length src + 4 \<le> d \<Longrightarrow> parse d src xd \<noteq> Inl RangeError"
proof -
  assume "length src + 4 \<le> d"
  then have "snd (lex d src) \<noteq> Some RangeError"
    by (rule lex_deep)
  with assembleAll_not_RangeError [of xd "([], [])" "fst (lex d src)"] show ?thesis
    by (auto simp: parse_def split: prod.splits sum.splits option.splits)
qed

lemma parse_depth_irrelevant:
  assumes "length src + 4 \<le> d" and "length src + 4 \<le> d'"
  shows "parse d' src xd = parse d src xd"
  using lex_depth_irrelevant [OF assms] by (simp add: parse_def)

end
